theory Spec2Isabelle
  imports Main "HOL-Library.Monad_Syntax"
begin

section \<open>Data model (src/types/tree.types.ts)\<close>

text \<open>
  \<^verbatim>\<open>TreeItemId = string | number\<close>. Numeric identifiers are modelled as integers (the
  fractional and non-finite doubles are left out); a number and a string are never the
  same key, as in a JavaScript \<^verbatim>\<open>Map\<close> and under \<^verbatim>\<open>===\<close>.
\<close>

datatype TreeItemId = NumId int | StrId string

text \<open>
  \<^verbatim>\<open>ITreeItem\<close> objects. The store compares objects by identity
  (\<^verbatim>\<open>Array.prototype.indexOf\<close>), so every object carries its address \<open>ref\<close>: two
  values of this record denote the same JavaScript object exactly when they are equal,
  address included. The field \<^verbatim>\<open>id\<close> is called \<open>itemId\<close> here. The store never
  writes to a field of an item.
\<close>

record ITreeItem =
  ref :: nat
  itemId :: TreeItemId
  parent :: "TreeItemId option"
  label :: string

text \<open>
  The fields of class \<^verbatim>\<open>TreeStore\<close> (src/core/TreeStore.ts). The three \<^verbatim>\<open>Map\<close>s are
  only read and written by key, never iterated, so they are partial functions. The
  arrays held by \<open>items\<close> and \<open>childrenMap\<close> are values (that \<^verbatim>\<open>update\<close> keeps the
  caller's array as \<open>items\<close> is not modelled). The arrays that hold
  ancestor chains (the entries of \<open>parentChainCache\<close> and the arrays returned by
  \<^verbatim>\<open>getAllParents\<close>) live in an explicit heap \<open>arrays\<close>, addressed by natural numbers,
  with \<open>fresh\<close> the next unused address: a caller can write to an array it was given.
\<close>

record TreeStore =
  items :: "ITreeItem list"
  itemsMap :: "TreeItemId \<rightharpoonup> ITreeItem"
  childrenMap :: "TreeItemId \<rightharpoonup> ITreeItem list"
  parentChainCache :: "TreeItemId \<rightharpoonup> nat"
  arrays :: "nat \<Rightarrow> ITreeItem list"
  fresh :: nat

text \<open>\<^verbatim>\<open>new TreeStore()\<close>\<close>

definition newTreeStore :: TreeStore where
  "newTreeStore =
     \<lparr>items = [], itemsMap = Map.empty, childrenMap = Map.empty,
      parentChainCache = Map.empty, arrays = (\<lambda>_. []), fresh = 0\<rparr>"

section \<open>Array primitives\<close>

text \<open>\<^verbatim>\<open>findIndex\<close>: the first index whose element satisfies the predicate (\<open>None\<close> for -1).\<close>

fun findIndex :: "('a \<Rightarrow> bool) \<Rightarrow> 'a list \<Rightarrow> nat option" where
  "findIndex P [] = None"
| "findIndex P (x # xs) =
     (if P x then Some 0 else map_option Suc (findIndex P xs))"

text \<open>\<^verbatim>\<open>indexOf\<close>: the first index holding this very object.\<close>

definition indexOf :: "'a \<Rightarrow> 'a list \<Rightarrow> nat option" where
  "indexOf x xs = findIndex (\<lambda>y. y = x) xs"

text \<open>\<^verbatim>\<open>xs.splice(index, 1)\<close>\<close>

definition splice1 :: "nat \<Rightarrow> 'a list \<Rightarrow> 'a list" where
  "splice1 i xs = take i xs @ drop (Suc i) xs"

text \<open>A new array with the given content; returns its address.\<close>

definition newArray :: "ITreeItem list \<Rightarrow> TreeStore \<Rightarrow> nat \<times> TreeStore" where
  "newArray xs s =
     (fresh s, s\<lparr>arrays := (arrays s)(fresh s := xs), fresh := Suc (fresh s)\<rparr>)"

section \<open>Queries (src/core/TreeStore.ts)\<close>

definition getAll :: "TreeStore \<Rightarrow> ITreeItem list" where
  "getAll s = items s"

definition getItem :: "TreeStore \<Rightarrow> TreeItemId \<Rightarrow> ITreeItem option" where
  "getItem s k = itemsMap s k"

text \<open>\<^verbatim>\<open>this.childrenMap.get(id) || []\<close> (an array is always truthy).\<close>

definition getChildren :: "TreeStore \<Rightarrow> TreeItemId \<Rightarrow> ITreeItem list" where
  "getChildren s k = (case childrenMap s k of None \<Rightarrow> [] | Some cs \<Rightarrow> cs)"

text \<open>
  \<^verbatim>\<open>getAllChildren\<close>: the \<^verbatim>\<open>for\<close> loop over \<^verbatim>\<open>directChildren\<close> with \<open>cs\<close> the children
  still to visit and \<open>result\<close> the array built so far. The inner call on the children of
  \<open>child\<close> with an empty result is the recursive call \<^verbatim>\<open>this.getAllChildren(child.id)\<close>.
  The source has no guard against a cyclic children index: the recursion then never
  returns (it ends in a stack overflow), which is the value \<open>None\<close>.
\<close>

partial_function (option) getAllChildren_loop ::
  "TreeStore \<Rightarrow> ITreeItem list \<Rightarrow> ITreeItem list \<Rightarrow> ITreeItem list option" where
  "getAllChildren_loop s cs result =
     (case cs of
        [] \<Rightarrow> Some result
      | child # rest \<Rightarrow>
          do { childDescendants \<leftarrow> getAllChildren_loop s (getChildren s (itemId child)) [];
               getAllChildren_loop s rest (result @ [child] @ childDescendants) })"

declare getAllChildren_loop.simps [code]

definition getAllChildren :: "TreeStore \<Rightarrow> TreeItemId \<Rightarrow> ITreeItem list option" where
  "getAllChildren s k = getAllChildren_loop s (getChildren s k) []"

text \<open>
  The same recursion on an engine with limits. Every nested call
  \<^verbatim>\<open>this.getAllChildren(child.id)\<close> takes a stack frame, and
  \<^verbatim>\<open>result.push(...childDescendants)\<close> passes every descendant as an argument of one
  call; an engine answers with a \<^verbatim>\<open>RangeError\<close> when its call stack or its argument limit
  is exceeded. The limits are constants of the engine, not of the source, so they are
  parameters here: \<open>frames\<close> is the number of nested calls the stack still takes,
  \<open>maxArgs\<close> the largest number of arguments of one call. \<open>None\<close> is the
  \<^verbatim>\<open>RangeError\<close>.
\<close>

fun getAllChildren_stack ::
  "nat \<Rightarrow> nat \<Rightarrow> TreeStore \<Rightarrow> ITreeItem list \<Rightarrow> ITreeItem list \<Rightarrow> ITreeItem list option"
  where
  "getAllChildren_stack maxArgs frames s [] result = Some result"
| "getAllChildren_stack maxArgs 0 s (child # rest) result = None"
| "getAllChildren_stack maxArgs (Suc frames) s (child # rest) result =
     (case getAllChildren_stack maxArgs frames s (getChildren s (itemId child)) [] of
        None \<Rightarrow> None
      | Some childDescendants \<Rightarrow>
          if maxArgs < length childDescendants then None
          else getAllChildren_stack maxArgs (Suc frames) s rest
                 (result @ [child] @ childDescendants))"

definition getAllChildren_limited ::
  "nat \<Rightarrow> nat \<Rightarrow> TreeStore \<Rightarrow> TreeItemId \<Rightarrow> ITreeItem list option" where
  "getAllChildren_limited maxArgs frames s k =
     (case frames of
        0 \<Rightarrow> None
      | Suc below \<Rightarrow> getAllChildren_stack maxArgs below s (getChildren s k) [])"

text \<open>
  The \<^verbatim>\<open>while (currentItem)\<close> loop of \<^verbatim>\<open>getAllParents\<close>, over the id index \<open>m\<close>. On
  cyclic parent links it never leaves the loop: \<open>None\<close>.
\<close>

partial_function (option) getAllParents_loop ::
  "(TreeItemId \<rightharpoonup> ITreeItem) \<Rightarrow> ITreeItem option \<Rightarrow> ITreeItem list \<Rightarrow> ITreeItem list option"
  where
  "getAllParents_loop m currentItem result =
     (case currentItem of
        None \<Rightarrow> Some result
      | Some item \<Rightarrow>
          (case parent item of
             None \<Rightarrow> Some (result @ [item])
           | Some p \<Rightarrow> getAllParents_loop m (m p) (result @ [item])))"

declare getAllParents_loop.simps [code]

text \<open>
  \<^verbatim>\<open>getAllParents\<close> returns the address of the array it hands out, and the store after
  the call. On a cache hit the array is a copy of the cached one; on a miss the array
  \<^verbatim>\<open>result\<close> goes into the cache and a copy of it is returned.
\<close>

definition getAllParents :: "TreeStore \<Rightarrow> TreeItemId \<Rightarrow> (nat \<times> TreeStore) option" where
  "getAllParents s k =
     (case parentChainCache s k of
        Some a \<Rightarrow> Some (newArray (arrays s a) s)
      | None \<Rightarrow>
          do { result \<leftarrow> getAllParents_loop (itemsMap s) (getItem s k) [];
               let (r, s1) = newArray result s;
               let s2 = s1\<lparr>parentChainCache := (parentChainCache s1)(k \<mapsto> r)\<rparr>;
               Some (newArray (arrays s2 r) s2) })"

section \<open>Private helpers\<close>

text \<open>
  \<^verbatim>\<open>invalidateParentChainCacheRecursive\<close>: the loop over the children of an id whose
  cache entry has just been deleted; the inner call deletes the entry of \<open>child\<close> and
  runs the loop over its children. No guard against a cyclic children index.
\<close>

partial_function (option) invalidate_loop ::
  "TreeStore \<Rightarrow> ITreeItem list \<Rightarrow> TreeStore option" where
  "invalidate_loop s cs =
     (case cs of
        [] \<Rightarrow> Some s
      | child # rest \<Rightarrow>
          do { s' \<leftarrow> invalidate_loop
                      (s\<lparr>parentChainCache := (parentChainCache s)(itemId child := None)\<rparr>)
                      (getChildren s (itemId child));
               invalidate_loop s' rest })"

declare invalidate_loop.simps [code]

definition invalidateParentChainCacheRecursive ::
  "TreeStore \<Rightarrow> TreeItemId \<Rightarrow> TreeStore option" where
  "invalidateParentChainCacheRecursive s k =
     invalidate_loop (s\<lparr>parentChainCache := (parentChainCache s)(k := None)\<rparr>)
       (getChildren s k)"

definition invalidateParentChainCache :: "TreeStore \<Rightarrow> TreeItemId \<Rightarrow> TreeStore option" where
  "invalidateParentChainCache s k = invalidateParentChainCacheRecursive s k"

definition removeFromChildrenMap :: "TreeStore \<Rightarrow> TreeItemId \<Rightarrow> TreeItemId \<Rightarrow> TreeStore" where
  "removeFromChildrenMap s parentId childId =
     (case childrenMap s parentId of
        None \<Rightarrow> s
      | Some children \<Rightarrow>
          (case findIndex (\<lambda>child. itemId child = childId) children of
             None \<Rightarrow> s
           | Some index \<Rightarrow>
               s\<lparr>childrenMap := (childrenMap s)(parentId \<mapsto> splice1 index children)\<rparr>))"

text \<open>The two passes of \<^verbatim>\<open>buildIndexes\<close>.\<close>

definition registerItem :: "ITreeItem \<Rightarrow> TreeStore \<Rightarrow> TreeStore" where
  "registerItem item s =
     (let s1 = s\<lparr>itemsMap := (itemsMap s)(itemId item \<mapsto> item)\<rparr>
      in if childrenMap s1 (itemId item) = None
         then s1\<lparr>childrenMap := (childrenMap s1)(itemId item \<mapsto> [])\<rparr>
         else s1)"

definition linkItem :: "ITreeItem \<Rightarrow> TreeStore \<Rightarrow> TreeStore" where
  "linkItem item s =
     (case parent item of
        None \<Rightarrow> s
      | Some p \<Rightarrow>
          (case childrenMap s p of
             Some children \<Rightarrow> s\<lparr>childrenMap := (childrenMap s)(p \<mapsto> children @ [item])\<rparr>
           | None \<Rightarrow> s\<lparr>childrenMap := (childrenMap s)(p \<mapsto> [item])\<rparr>))"

definition buildIndexes :: "TreeStore \<Rightarrow> TreeStore" where
  "buildIndexes s =
     (let s0 = s\<lparr>itemsMap := Map.empty, childrenMap := Map.empty,
                 parentChainCache := Map.empty\<rparr>;
          s1 = fold registerItem (items s0) s0
      in fold linkItem (items s1) s1)"

section \<open>Mutations (src/core/TreeStore.ts)\<close>

definition update :: "TreeStore \<Rightarrow> ITreeItem list \<Rightarrow> TreeStore" where
  "update s newItems = buildIndexes (s\<lparr>items := newItems\<rparr>)"

text \<open>\<^verbatim>\<open>addItem\<close> returns nothing; \<open>None\<close> is the invalidation not returning.\<close>

definition addItem :: "TreeStore \<Rightarrow> ITreeItem \<Rightarrow> TreeStore option" where
  "addItem s item =
     (let s1 = s\<lparr>items := items s @ [item]\<rparr>;
          s2 = s1\<lparr>itemsMap := (itemsMap s1)(itemId item \<mapsto> item)\<rparr>
      in do {
        s3 \<leftarrow> (case parent item of
                 None \<Rightarrow> Some s2
               | Some p \<Rightarrow>
                   (let siblings = getChildren s2 p @ [item]
                    in invalidateParentChainCache
                         (s2\<lparr>childrenMap := (childrenMap s2)(p \<mapsto> siblings)\<rparr>) p));
        Some (if childrenMap s3 (itemId item) = None
              then s3\<lparr>childrenMap := (childrenMap s3)(itemId item \<mapsto> [])\<rparr>
              else s3) })"

text \<open>One round of the loop over \<^verbatim>\<open>itemsToRemove\<close> in \<^verbatim>\<open>removeItem\<close>.\<close>

definition removeOne :: "ITreeItem \<Rightarrow> TreeStore \<Rightarrow> TreeStore" where
  "removeOne itemToRemove s =
     (let s1 = (case indexOf itemToRemove (items s) of
                  None \<Rightarrow> s
                | Some index \<Rightarrow> s\<lparr>items := splice1 index (items s)\<rparr>)
      in s1\<lparr>itemsMap := (itemsMap s1)(itemId itemToRemove := None),
             childrenMap := (childrenMap s1)(itemId itemToRemove := None),
             parentChainCache := (parentChainCache s1)(itemId itemToRemove := None)\<rparr>)"

text \<open>\<^verbatim>\<open>removeItem\<close> and \<^verbatim>\<open>updateItem\<close> return their boolean and the store afterwards.\<close>

definition removeItem :: "TreeStore \<Rightarrow> TreeItemId \<Rightarrow> (bool \<times> TreeStore) option" where
  "removeItem s k =
     (case getItem s k of
        None \<Rightarrow> Some (False, s)
      | Some item \<Rightarrow>
          do { allChildren \<leftarrow> getAllChildren s k;
               let itemsToRemove = item # allChildren;
               let s1 = fold removeOne itemsToRemove s;
               s2 \<leftarrow> (case parent item of
                        None \<Rightarrow> Some s1
                      | Some p \<Rightarrow> invalidateParentChainCache (removeFromChildrenMap s1 p k) p);
               Some (True, s2) })"

definition updateItem :: "TreeStore \<Rightarrow> ITreeItem \<Rightarrow> (bool \<times> TreeStore) option" where
  "updateItem s updatedItem =
     (case getItem s (itemId updatedItem) of
        None \<Rightarrow> Some (False, s)
      | Some existingItem \<Rightarrow>
          (let oldParent = parent existingItem;
               newParent = parent updatedItem;
               parentChanged = (oldParent \<noteq> newParent);
               s1 = (case indexOf existingItem (items s) of
                       None \<Rightarrow> s
                     | Some index \<Rightarrow> s\<lparr>items := (items s)[index := updatedItem]\<rparr>);
               s2 = s1\<lparr>itemsMap := (itemsMap s1)(itemId updatedItem \<mapsto> updatedItem)\<rparr>
           in if parentChanged
              then do {
                s3 \<leftarrow> (case oldParent of
                         None \<Rightarrow> Some s2
                       | Some op \<Rightarrow>
                           invalidateParentChainCache
                             (removeFromChildrenMap s2 op (itemId updatedItem)) op);
                s4 \<leftarrow> (case newParent of
                         None \<Rightarrow> Some s3
                       | Some np \<Rightarrow>
                           (let siblings = getChildren s3 np @ [updatedItem]
                            in invalidateParentChainCache
                                 (s3\<lparr>childrenMap := (childrenMap s3)(np \<mapsto> siblings)\<rparr>) np));
                s5 \<leftarrow> invalidateParentChainCacheRecursive s4 (itemId updatedItem);
                Some (True, s5) }
              else Some (True, s2)))"

section \<open>Traversal (src/utils/tree.utils.ts)\<close>

text \<open>
  \<^verbatim>\<open>sortTreeItemsDFS\<close>. The nested function \<^verbatim>\<open>traverse\<close> works on the two variables
  \<^verbatim>\<open>visited\<close> and \<^verbatim>\<open>result\<close> of the enclosing call; \<open>traverse_loop\<close> is a loop
  \<^verbatim>\<open>for (const x of xs) traverse(x.id)\<close> (the one over the children and the one over the
  roots have this shape), with the body of \<^verbatim>\<open>traverse\<close> unfolded in it.
\<close>

partial_function (option) traverse_loop ::
  "TreeStore \<Rightarrow> ITreeItem list \<Rightarrow> TreeItemId set \<times> ITreeItem list
     \<Rightarrow> (TreeItemId set \<times> ITreeItem list) option" where
  "traverse_loop s xs st =
     (case xs of
        [] \<Rightarrow> Some st
      | x # rest \<Rightarrow>
          (if itemId x \<in> fst st then traverse_loop s rest st
           else (case getItem s (itemId x) of
                   None \<Rightarrow> traverse_loop s rest st
                 | Some item \<Rightarrow>
                     do { st' \<leftarrow> traverse_loop s (getChildren s (itemId x))
                                  (insert (itemId x) (fst st), snd st @ [item]);
                          traverse_loop s rest st' })))"

declare traverse_loop.simps [code]

definition sortTreeItemsDFS :: "ITreeItem list \<Rightarrow> TreeStore \<Rightarrow> ITreeItem list option" where
  "sortTreeItemsDFS its treeStore =
     (let rootItems = filter (\<lambda>item. parent item = None) its
      in map_option snd (traverse_loop treeStore rootItems ({}, [])))"

section \<open>Notions used to state the properties\<close>

text \<open>
  The parent links of an id index, parent first: \<open>(p, k)\<close> when the record stored under
  \<open>k\<close> names \<open>p\<close> as its parent. The walk of \<^verbatim>\<open>getAllParents\<close> follows these links
  upwards.
\<close>

definition parentLinks :: "(TreeItemId \<rightharpoonup> ITreeItem) \<Rightarrow> (TreeItemId \<times> TreeItemId) set" where
  "parentLinks m = {(p, k). \<exists>x. m k = Some x \<and> parent x = Some p}"

text \<open>
  The links of the children index, parent first: \<open>(p, c)\<close> when the children list under
  \<open>p\<close> holds an object with id \<open>c\<close>. The recursive descents follow these links downwards.
\<close>

definition kidLinks :: "TreeStore \<Rightarrow> (TreeItemId \<times> TreeItemId) set" where
  "kidLinks s = {(p, c). c \<in> itemId ` set (getChildren s p)}"

text \<open>
  The children index agrees with the id index: under each parent id it lists exactly the
  ids of the stored records that name this parent, each id once.
\<close>

definition childrenConsistent :: "TreeStore \<Rightarrow> bool" where
  "childrenConsistent s \<longleftrightarrow>
     kidLinks s = parentLinks (itemsMap s) \<and>
     (\<forall>p. distinct (map itemId (getChildren s p)))"

text \<open>
  The ancestor chain as the specification words it: from the record itself to the
  furthest reachable ancestor, a root or a record whose parent id resolves to no stored
  record; empty for an unknown id.
\<close>

inductive ancestorChain ::
  "(TreeItemId \<rightharpoonup> ITreeItem) \<Rightarrow> TreeItemId \<Rightarrow> ITreeItem list \<Rightarrow> bool" where
  unknown: "m k = None \<Longrightarrow> ancestorChain m k []"
| root: "m k = Some x \<Longrightarrow> parent x = None \<Longrightarrow> ancestorChain m k [x]"
| step: "m k = Some x \<Longrightarrow> parent x = Some p \<Longrightarrow> ancestorChain m p xs
           \<Longrightarrow> ancestorChain m k (x # xs)"

code_pred (modes: i \<Rightarrow> i \<Rightarrow> o \<Rightarrow> bool, i \<Rightarrow> i \<Rightarrow> i \<Rightarrow> bool) ancestorChain .

text \<open>Deleting the cache entries of a set of ids: what an invalidation amounts to.\<close>

definition dropCache :: "TreeItemId set \<Rightarrow> TreeStore \<Rightarrow> TreeStore" where
  "dropCache D s =
     s\<lparr>parentChainCache := (\<lambda>k. if k \<in> D then None else parentChainCache s k)\<rparr>"

text \<open>
  Pre-order as the specification words it: each record, then its children in
  children-list order, each child followed by its own subtree, before the next sibling.
  \<open>preOrderOf s xs visit\<close>: \<open>visit\<close> is the pre-order of the forest under the list \<open>xs\<close>.
\<close>

inductive preOrderOf :: "TreeStore \<Rightarrow> ITreeItem list \<Rightarrow> ITreeItem list \<Rightarrow> bool" where
  nil: "preOrderOf s [] []"
| cons: "preOrderOf s (getChildren s (itemId x)) below \<Longrightarrow> preOrderOf s rest others
           \<Longrightarrow> preOrderOf s (x # rest) (x # below @ others)"

code_pred (modes: i \<Rightarrow> i \<Rightarrow> o \<Rightarrow> bool, i \<Rightarrow> i \<Rightarrow> i \<Rightarrow> bool) preOrderOf .

text \<open>Every array the cache refers to has been allocated.\<close>

definition cacheAllocated :: "TreeStore \<Rightarrow> bool" where
  "cacheAllocated s \<longleftrightarrow> (\<forall>k a. parentChainCache s k = Some a \<longrightarrow> a < fresh s)"

text \<open>A caller overwrites the content of an array it holds (reversing it, for one).\<close>

definition writeArray :: "nat \<Rightarrow> ITreeItem list \<Rightarrow> TreeStore \<Rightarrow> TreeStore" where
  "writeArray a ys s = s\<lparr>arrays := (arrays s)(a := ys)\<rparr>"

text \<open>Removing the first element that satisfies a predicate: \<^verbatim>\<open>findIndex\<close>, then \<^verbatim>\<open>splice\<close>.\<close>

fun removeFirst :: "('a \<Rightarrow> bool) \<Rightarrow> 'a list \<Rightarrow> 'a list" where
  "removeFirst P [] = []"
| "removeFirst P (x # xs) = (if P x then xs else x # removeFirst P xs)"

text \<open>
  The cache of \<open>s'\<close> has no entry that the cache of \<open>s\<close> does not have, and no array
  has been allocated in between: what every mutation does to the cache.
\<close>

definition cacheWithin :: "TreeStore \<Rightarrow> TreeStore \<Rightarrow> bool" where
  "cacheWithin s s' \<longleftrightarrow>
     fresh s' = fresh s \<and>
     (\<forall>k a. parentChainCache s' k = Some a \<longrightarrow> parentChainCache s k = Some a)"

text \<open>
  A well-formed store: finitely many records, each stored under its own id (unique
  identifiers), a children index that agrees with the id index, acyclic parent links.
\<close>

definition wellFormed :: "TreeStore \<Rightarrow> bool" where
  "wellFormed s \<longleftrightarrow>
     finite (dom (itemsMap s)) \<and>
     (\<forall>k x. itemsMap s k = Some x \<longrightarrow> itemId x = k) \<and>
     childrenConsistent s \<and>
     acyclic (parentLinks (itemsMap s))"

section \<open>Example data\<close>

text \<open>An object literal with numeric ids, allocated at address \<open>r\<close>.\<close>

definition treeItem :: "nat \<Rightarrow> int \<Rightarrow> int option \<Rightarrow> string \<Rightarrow> ITreeItem" where
  "treeItem r i p l = \<lparr>ref = r, itemId = NumId i, parent = map_option NumId p, label = l\<rparr>"

text \<open>\<^verbatim>\<open>getMockItems()\<close> of the test suites, and the store the tests start from.\<close>

definition mockItems :: "ITreeItem list" where
  "mockItems =
     [treeItem 1 1 None ''Root'',
      treeItem 2 2 (Some 1) ''Child 1'',
      treeItem 3 3 (Some 1) ''Child 2'',
      treeItem 4 4 (Some 2) ''Grandchild 1'',
      treeItem 5 5 (Some 2) ''Grandchild 2'',
      treeItem 6 6 (Some 3) ''Grandchild 3'']"

definition mockStore :: TreeStore where
  "mockStore = update newTreeStore mockItems"

text \<open>A store holding one root, and a second object with the same id.\<close>

definition oneRootStore :: TreeStore where
  "oneRootStore = update newTreeStore [treeItem 1 1 None ''Root'']"

definition sameIdItem :: ITreeItem where
  "sameIdItem = treeItem 2 1 None ''Other''"

text \<open>A store holding only a record whose parent is not stored, and that parent.\<close>

definition orphanItem :: ITreeItem where
  "orphanItem = treeItem 1 2 (Some 1) ''Orphan''"

definition orphanStore :: TreeStore where
  "orphanStore = update newTreeStore [orphanItem]"

definition lateRoot :: ITreeItem where
  "lateRoot = treeItem 2 1 None ''Root''"

text \<open>A root with one child.\<close>

definition pairStore :: TreeStore where
  "pairStore =
     update newTreeStore [treeItem 1 1 None ''Root'', treeItem 2 2 (Some 1) ''Child'']"

text \<open>A rank that grows along the parent links of the examples.\<close>

definition depthRank :: "TreeItemId \<Rightarrow> nat" where
  "depthRank k = (case k of NumId n \<Rightarrow> nat n | StrId _ \<Rightarrow> 0)"

text \<open>The multi-root example of the traversal tests.\<close>

definition multiRootItems :: "ITreeItem list" where
  "multiRootItems =
     [treeItem 1 1 None ''Root 1'',
      treeItem 2 2 None ''Root 2'',
      treeItem 3 3 (Some 1) ''Child of Root 1'',
      treeItem 4 4 (Some 2) ''Child of Root 2'']"

text \<open>A record that names itself as parent, loaded by \<^verbatim>\<open>update\<close>.\<close>

definition cyclicStore :: TreeStore where
  "cyclicStore = update newTreeStore [treeItem 1 1 (Some 1) ''Loop'']"

text \<open>
  The store with the orphan after its ancestor chain has been asked for, and after the
  missing parent has then been inserted.
\<close>

definition orphanQueried :: TreeStore where
  "orphanQueried = snd (the (getAllParents orphanStore (NumId 2)))"

definition orphanAdopted :: TreeStore where
  "orphanAdopted = the (addItem orphanQueried lateRoot)"

text \<open>The test store after the label of record 4 has been updated.\<close>

definition relabelledStore :: TreeStore where
  "relabelledStore =
     snd (the (updateItem mockStore (treeItem 7 4 (Some 2) ''New Label Only'')))"

text \<open>The test store after the ancestor chain of record 4 has been asked for.\<close>

definition mockQueried :: TreeStore where
  "mockQueried = snd (the (getAllParents mockStore (NumId 4)))"

section \<open>Basic facts\<close>

lemma getAllParents_loop_None: "getAllParents_loop m None result = Some result"
  by (subst getAllParents_loop.simps) simp

lemma getAllParents_loop_Some:
  "getAllParents_loop m (Some item) result =
     (case parent item of
        None \<Rightarrow> Some (result @ [item])
      | Some p \<Rightarrow> getAllParents_loop m (m p) (result @ [item]))"
  by (subst getAllParents_loop.simps) simp

lemma getAllChildren_loop_Nil: "getAllChildren_loop s [] result = Some result"
  by (subst getAllChildren_loop.simps) simp

lemma getAllChildren_loop_Cons:
  "getAllChildren_loop s (child # rest) result =
     do { childDescendants \<leftarrow> getAllChildren_loop s (getChildren s (itemId child)) [];
          getAllChildren_loop s rest (result @ [child] @ childDescendants) }"
  by (subst getAllChildren_loop.simps) simp

lemma traverse_loop_Nil: "traverse_loop s [] st = Some st"
  by (subst traverse_loop.simps) simp

lemma traverse_loop_Cons:
  "traverse_loop s (x # rest) st =
     (if itemId x \<in> fst st then traverse_loop s rest st
      else (case getItem s (itemId x) of
              None \<Rightarrow> traverse_loop s rest st
            | Some item \<Rightarrow>
                do { st' \<leftarrow> traverse_loop s (getChildren s (itemId x))
                             (insert (itemId x) (fst st), snd st @ [item]);
                     traverse_loop s rest st' }))"
  by (subst traverse_loop.simps) simp

lemma invalidate_loop_Nil: "invalidate_loop s [] = Some s"
  by (subst invalidate_loop.simps) simp

lemma invalidate_loop_Cons:
  "invalidate_loop s (child # rest) =
     do { s' \<leftarrow> invalidate_loop
                 (s\<lparr>parentChainCache := (parentChainCache s)(itemId child := None)\<rparr>)
                 (getChildren s (itemId child));
          invalidate_loop s' rest }"
  by (subst invalidate_loop.simps) simp

lemma getChildren_dropCache: "getChildren (dropCache D s) = getChildren s"
  by (simp add: dropCache_def getChildren_def fun_eq_iff)

lemma kidLinks_dropCache: "kidLinks (dropCache D s) = kidLinks s"
  by (simp add: kidLinks_def getChildren_dropCache)

lemma dropCache_dropCache: "dropCache A (dropCache B s) = dropCache (A \<union> B) s"
  by (auto simp: dropCache_def fun_eq_iff)

lemma dropCache_single:
  "s\<lparr>parentChainCache := (parentChainCache s)(k := None)\<rparr> = dropCache {k} s"
  by (auto simp: dropCache_def fun_eq_iff)

lemma dropCache_fields:
  "items (dropCache D s) = items s"
  "itemsMap (dropCache D s) = itemsMap s"
  "childrenMap (dropCache D s) = childrenMap s"
  "arrays (dropCache D s) = arrays s"
  "fresh (dropCache D s) = fresh s"
  "getItem (dropCache D s) = getItem s"
  by (simp_all add: dropCache_def getItem_def fun_eq_iff)

lemma kids_closure:
  "(kidLinks s)\<^sup>* `` {k} =
     insert k ((kidLinks s)\<^sup>* `` (itemId ` set (getChildren s k)))"
proof -
  have "kidLinks s `` {k} = itemId ` set (getChildren s k)"
    by (auto simp: kidLinks_def)
  moreover have "(kidLinks s)\<^sup>* `` {k} = insert k ((kidLinks s)\<^sup>* `` (kidLinks s `` {k}))"
    by (auto elim: converse_rtranclE intro: converse_rtrancl_into_rtrancl)
  ultimately show ?thesis by simp
qed

text \<open>What an invalidation that returns has done: the cache entries of the ids below are gone.\<close>

lemma invalidate_loop_result:
  assumes "invalidate_loop s cs = Some s'"
  shows "s' = dropCache ((kidLinks s)\<^sup>* `` (itemId ` set cs)) s"
proof -
  let ?P = "\<lambda>s cs s'. s' = dropCache ((kidLinks s)\<^sup>* `` (itemId ` set cs)) s"
  have step: "?P s cs s'"
    if ih: "\<And>s cs y. f s cs = Some y \<Longrightarrow> ?P s cs y"
    and eq: "(case cs of [] \<Rightarrow> Some s
              | child # rest \<Rightarrow>
                  f (s\<lparr>parentChainCache := (parentChainCache s)(itemId child := None)\<rparr>)
                    (getChildren s (itemId child)) \<bind> (\<lambda>s'. f s' rest)) = Some s'"
    for f s cs s'
  proof (cases cs)
    case Nil
    with eq show ?thesis by (simp add: dropCache_def)
  next
    case (Cons child rest)
    let ?s1 = "dropCache {itemId child} s"
    from eq Cons obtain s'' where a: "f ?s1 (getChildren s (itemId child)) = Some s''"
      and b: "f s'' rest = Some s'"
      by (auto simp: bind_eq_Some_conv dropCache_single)
    have "s' = dropCache ((kidLinks s)\<^sup>* `` (itemId ` set rest) \<union>
                ((kidLinks s)\<^sup>* `` (itemId ` set (getChildren s (itemId child)))
                   \<union> {itemId child})) s"
      using ih[OF a] ih[OF b] by (simp add: kidLinks_dropCache dropCache_dropCache)
    also have "(kidLinks s)\<^sup>* `` (itemId ` set rest) \<union>
                ((kidLinks s)\<^sup>* `` (itemId ` set (getChildren s (itemId child)))
                   \<union> {itemId child})
        = (kidLinks s)\<^sup>* `` (itemId ` set cs)"
      using kids_closure[of s "itemId child"] Cons by auto
    finally show ?thesis .
  qed
  show ?thesis
    by (rule invalidate_loop.raw_induct[where P = ?P, OF step assms])
qed

lemma invalidateRecursive_result:
  assumes "invalidateParentChainCacheRecursive s k = Some s'"
  shows "s' = dropCache ((kidLinks s)\<^sup>* `` {k}) s"
proof -
  from assms have "invalidate_loop (dropCache {k} s) (getChildren s k) = Some s'"
    by (simp add: invalidateParentChainCacheRecursive_def dropCache_single)
  from invalidate_loop_result[OF this] show ?thesis
    by (simp add: kidLinks_dropCache dropCache_dropCache kids_closure[of s k])
qed

text \<open>An invalidation returns when the children index has no infinite descent.\<close>

lemma invalidate_loop_terminates:
  assumes "wf ((kidLinks s)\<inverse>)"
  shows "\<forall>D. \<exists>s'. invalidate_loop (dropCache D s) (getChildren s k) = Some s'"
  using assms
proof (induction k rule: wf_induct_rule)
  case (less k)
  have step: "\<forall>D. \<exists>s'. invalidate_loop (dropCache D s) cs = Some s'"
    if "set cs \<subseteq> set (getChildren s k)" for cs
    using that
  proof (induction cs)
    case Nil
    show ?case by (simp add: invalidate_loop_Nil)
  next
    case (Cons child rest)
    show ?case
    proof
      fix D
      have "(itemId child, k) \<in> (kidLinks s)\<inverse>"
        using Cons.prems by (auto simp: kidLinks_def)
      from less.IH[OF this less.prems] obtain s'' where
        a: "invalidate_loop (dropCache (insert (itemId child) D) s)
              (getChildren s (itemId child)) = Some s''"
        by blast
      from invalidate_loop_result[OF a] obtain D' where s'': "s'' = dropCache D' s"
        by (auto simp: dropCache_dropCache kidLinks_dropCache)
      from Cons.IH Cons.prems obtain s' where "invalidate_loop (dropCache D' s) rest = Some s'"
        by auto
      moreover have "(dropCache D s)\<lparr>parentChainCache :=
            (parentChainCache (dropCache D s))(itemId child := None)\<rparr> =
          dropCache (insert (itemId child) D) s"
        by (auto simp: dropCache_def fun_eq_iff)
      ultimately show "\<exists>s'. invalidate_loop (dropCache D s) (child # rest) = Some s'"
        using a s'' by (simp add: invalidate_loop_Cons getChildren_dropCache)
    qed
  qed
  show ?case using step[of "getChildren s k"] by simp
qed

lemma invalidateRecursive_terminates:
  assumes "wf ((kidLinks s)\<inverse>)"
  shows "invalidateParentChainCacheRecursive s k = Some (dropCache ((kidLinks s)\<^sup>* `` {k}) s)"
proof -
  from invalidate_loop_terminates[OF assms, of k] obtain s' where
    "invalidate_loop (dropCache {k} s) (getChildren s k) = Some s'"
    by blast
  then have r: "invalidateParentChainCacheRecursive s k = Some s'"
    by (simp add: invalidateParentChainCacheRecursive_def dropCache_single)
  from invalidateRecursive_result[OF r] r show ?thesis by simp
qed

text \<open>Evaluation of the stores of the examples.\<close>

lemma treeItem_sel [simp]:
  "ref (treeItem r i p l) = r"
  "itemId (treeItem r i p l) = NumId i"
  "parent (treeItem r i p l) = map_option NumId p"
  "label (treeItem r i p l) = l"
  by (simp_all add: treeItem_def)

lemma treeItem_eq [simp]:
  "treeItem r i p l = treeItem r' i' p' l' \<longleftrightarrow> r = r' \<and> i = i' \<and> p = p' \<and> l = l'"
  by (cases p; cases p'; simp add: treeItem_def)

lemmas store_eval =
  update_def buildIndexes_def registerItem_def linkItem_def newTreeStore_def
  getItem_def getChildren_def

lemmas loop_eval =
  getAllParents_loop_None getAllParents_loop_Some getAllChildren_loop_Nil
  getAllChildren_loop_Cons invalidate_loop_Nil invalidate_loop_Cons

lemma kidLinks_iff: "(p, c) \<in> kidLinks s \<longleftrightarrow> c \<in> set (map itemId (getChildren s p))"
  by (simp add: kidLinks_def)

lemma getChildren_mockStore:
  "getChildren mockStore p =
     (if p = NumId 1
      then [treeItem 2 2 (Some 1) ''Child 1'', treeItem 3 3 (Some 1) ''Child 2'']
      else if p = NumId 2
      then [treeItem 4 4 (Some 2) ''Grandchild 1'', treeItem 5 5 (Some 2) ''Grandchild 2'']
      else if p = NumId 3 then [treeItem 6 6 (Some 3) ''Grandchild 3'']
      else [])"
  by (simp add: mockStore_def mockItems_def store_eval)

lemma getChildren_pairStore:
  "getChildren pairStore p = (if p = NumId 1 then [treeItem 2 2 (Some 1) ''Child''] else [])"
  by (simp add: pairStore_def store_eval)

lemma kidLinks_mockStore:
  "kidLinks mockStore =
     {(NumId 1, NumId 2), (NumId 1, NumId 3), (NumId 2, NumId 4), (NumId 2, NumId 5),
      (NumId 3, NumId 6)}"
  by (rule set_eqI, simp only: split_paired_all kidLinks_iff getChildren_mockStore)
     (auto simp add: if_distrib[of set] if_distrib[of "map itemId"])

lemma kidLinks_pairStore: "kidLinks pairStore = {(NumId 1, NumId 2)}"
  by (rule set_eqI, simp only: split_paired_all kidLinks_iff getChildren_pairStore)
     (auto simp add: if_distrib[of set] if_distrib[of "map itemId"])

lemma acyclic_by_rank:
  assumes "\<And>p c. (p, c) \<in> r \<Longrightarrow> (f p :: nat) < f c"
  shows "acyclic r"
proof -
  have "acyclic (r\<inverse>)"
    by (rule acyclicI_order[where f = f]) (use assms in auto)
  then show ?thesis by simp
qed

lemma wf_kidLinks_pairStore: "wf ((kidLinks pairStore)\<inverse>)"
  by (rule finite_acyclic_wf_converse, simp add: kidLinks_pairStore,
      rule acyclic_by_rank[where f = depthRank])
     (auto simp: kidLinks_pairStore depthRank_def)

lemma wf_kidLinks_mockStore: "wf ((kidLinks mockStore)\<inverse>)"
  by (rule finite_acyclic_wf_converse, simp add: kidLinks_mockStore,
      rule acyclic_by_rank[where f = depthRank])
     (auto simp: kidLinks_mockStore depthRank_def)

lemma parentLinks_mockStore:
  "parentLinks (itemsMap mockStore) =
     {(NumId 1, NumId 2), (NumId 1, NumId 3), (NumId 2, NumId 4), (NumId 2, NumId 5),
      (NumId 3, NumId 6)}"
  by (rule set_eqI, simp only: split_paired_all)
     (auto simp add: parentLinks_def mockStore_def mockItems_def store_eval split: if_splits)

lemma finite_dom_mockStore: "finite (dom (itemsMap mockStore))"
  by (simp add: mockStore_def mockItems_def store_eval)

lemma acyclic_mockStore: "acyclic (parentLinks (itemsMap mockStore))"
  by (rule acyclic_by_rank[where f = depthRank])
     (auto simp: parentLinks_mockStore depthRank_def)

section \<open>Facts about the queries\<close>

text \<open>The loop of \<^verbatim>\<open>getAllParents\<close> computes the ancestor chain of the specification.\<close>

lemma ancestorChain_loop:
  assumes "ancestorChain m k xs"
  shows "getAllParents_loop m (m k) acc = Some (acc @ xs)"
  using assms
  by (induction arbitrary: acc rule: ancestorChain.induct)
     (simp_all add: getAllParents_loop_None getAllParents_loop_Some)

lemma ancestorChain_exists:
  assumes "wf (parentLinks m)"
  shows "\<exists>xs. ancestorChain m k xs"
  using assms
proof (induction k rule: wf_induct_rule)
  case (less k)
  show ?case
  proof (cases "m k")
    case None
    then show ?thesis by (blast intro: ancestorChain.unknown)
  next
    case (Some x)
    show ?thesis
    proof (cases "parent x")
      case None
      with Some show ?thesis by (blast intro: ancestorChain.root)
    next
      case (Some p)
      with \<open>m k = Some x\<close> have "(p, k) \<in> parentLinks m" by (auto simp: parentLinks_def)
      from less.IH[OF this less.prems] obtain xs where "ancestorChain m p xs" ..
      with Some \<open>m k = Some x\<close> show ?thesis by (blast intro: ancestorChain.step)
    qed
  qed
qed

lemma ancestorChain_unique:
  assumes "ancestorChain m k xs" and "ancestorChain m k ys"
  shows "xs = ys"
  using assms
proof (induction arbitrary: ys rule: ancestorChain.induct)
  case (unknown m k)
  from unknown(2) unknown(1) show ?case by cases simp_all
next
  case (root m k x)
  from root(3) root(1,2) show ?case by cases simp_all
next
  case (step m k x p xs)
  from step(5) show ?case
  proof cases
    case unknown
    with step(1) show ?thesis by simp
  next
    case (root y)
    with step(1,2) show ?thesis by simp
  next
    case (step y q zs)
    with step.hyps(1,2) step.IH[of zs] show ?thesis by simp
  qed
qed

lemma finite_parentLinks:
  assumes "finite (dom m)"
  shows "finite (parentLinks m)"
proof -
  have "parentLinks m \<subseteq> (\<lambda>k. (the (parent (the (m k))), k)) ` dom m"
  proof
    fix pk assume "pk \<in> parentLinks m"
    then obtain p k x where "pk = (p, k)" "m k = Some x" "parent x = Some p"
      by (auto simp: parentLinks_def)
    then have "k \<in> dom m" and "pk = (the (parent (the (m k))), k)" by auto
    then show "pk \<in> (\<lambda>k. (the (parent (the (m k))), k)) ` dom m" by (rule rev_image_eqI)
  qed
  moreover have "finite ((\<lambda>k. (the (parent (the (m k))), k)) ` dom m)"
    using assms by (rule finite_imageI)
  ultimately show ?thesis by (rule finite_subset)
qed

lemma getAllChildren_loop_terminates:
  assumes "wf ((kidLinks s)\<inverse>)"
  shows "\<forall>acc. \<exists>r. getAllChildren_loop s (getChildren s k) acc = Some r"
  using assms
proof (induction k rule: wf_induct_rule)
  case (less k)
  have step: "\<forall>acc. \<exists>r. getAllChildren_loop s cs acc = Some r"
    if "set cs \<subseteq> set (getChildren s k)" for cs
    using that
  proof (induction cs)
    case Nil
    show ?case by (simp add: getAllChildren_loop_Nil)
  next
    case (Cons child rest)
    show ?case
    proof
      fix acc
      have "(itemId child, k) \<in> (kidLinks s)\<inverse>"
        using Cons.prems by (auto simp: kidLinks_def)
      from less.IH[OF this less.prems] obtain ds where
        a: "getAllChildren_loop s (getChildren s (itemId child)) [] = Some ds"
        by blast
      from Cons.IH Cons.prems obtain r where
        "getAllChildren_loop s rest (acc @ [child] @ ds) = Some r"
        by auto
      with a show "\<exists>r. getAllChildren_loop s (child # rest) acc = Some r"
        by (simp add: getAllChildren_loop_Cons)
    qed
  qed
  show ?case using step[of "getChildren s k"] by simp
qed

lemma getAllParents_returns:
  assumes "wf (parentLinks (itemsMap s))"
  shows "\<exists>r. getAllParents s k = Some r"
proof (cases "parentChainCache s k")
  case None
  from ancestorChain_exists[OF assms, of k] obtain xs where "ancestorChain (itemsMap s) k xs" ..
  from ancestorChain_loop[OF this, of "[]"] None show ?thesis
    by (simp add: getAllParents_def getItem_def split: prod.splits)
next
  case (Some a)
  then show ?thesis by (simp add: getAllParents_def)
qed

text \<open>On a record that is its own parent neither the walk nor the descent returns.\<close>

lemma getAllParents_loop_self_cycle:
  assumes "m k = Some x" and "parent x = Some k"
  shows "getAllParents_loop m (Some x) acc = None"
proof -
  let ?P = "\<lambda>m' cur (acc :: ITreeItem list) (y :: ITreeItem list). \<not> (m' = m \<and> cur = Some x)"
  have step: "?P m' cur acc y"
    if ih: "\<And>m cur acc y. f m cur acc = Some y \<Longrightarrow> ?P m cur acc y"
    and eq: "(case cur of None \<Rightarrow> Some acc
             | Some item \<Rightarrow>
                 (case parent item of None \<Rightarrow> Some (acc @ [item])
                  | Some p \<Rightarrow> f m' (m' p) (acc @ [item]))) = Some y"
    for f m' cur acc y
  proof
    assume "m' = m \<and> cur = Some x"
    with eq assms have "f m (Some x) (acc @ [x]) = Some y" by simp
    from ih[OF this] show False by simp
  qed
  have "\<not> (m = m \<and> Some x = Some x)" if "getAllParents_loop m (Some x) acc = Some y" for y
    by (rule getAllParents_loop.raw_induct[where P = ?P, OF step that])
  then show ?thesis by (cases "getAllParents_loop m (Some x) acc") auto
qed

lemma getAllChildren_loop_self_cycle:
  assumes "getChildren s (itemId x) = [x]"
  shows "getAllChildren_loop s [x] acc = None"
proof -
  let ?P = "\<lambda>s' cs (acc :: ITreeItem list) (y :: ITreeItem list). \<not> (s' = s \<and> cs = [x])"
  have step: "?P s' cs acc y"
    if ih: "\<And>s cs acc y. f s cs acc = Some y \<Longrightarrow> ?P s cs acc y"
    and eq: "(case cs of [] \<Rightarrow> Some acc
             | child # rest \<Rightarrow>
                 f s' (getChildren s' (itemId child)) [] \<bind>
                 (\<lambda>childDescendants. f s' rest (acc @ [child] @ childDescendants))) = Some y"
    for f s' cs acc y
  proof
    assume "s' = s \<and> cs = [x]"
    with eq assms obtain ds where "f s [x] [] = Some ds"
      by (auto simp: bind_eq_Some_conv)
    from ih[OF this] show False by simp
  qed
  have "\<not> (s = s \<and> [x] = [x])" if "getAllChildren_loop s [x] acc = Some y" for y
    by (rule getAllChildren_loop.raw_induct[where P = ?P, OF step that])
  then show ?thesis by (cases "getAllChildren_loop s [x] acc") auto
qed

lemma getAllParents_hit:
  assumes "parentChainCache s k = Some c"
  shows "getAllParents s k =
           Some (fresh s, s\<lparr>arrays := (arrays s)(fresh s := arrays s c),
                            fresh := Suc (fresh s)\<rparr>)"
  using assms by (simp add: getAllParents_def newArray_def)

lemma getAllParents_miss:
  assumes "parentChainCache s k = None"
  shows "getAllParents s k =
           map_option
             (\<lambda>xs. (Suc (fresh s),
                    s\<lparr>arrays := (arrays s)(fresh s := xs, Suc (fresh s) := xs),
                       fresh := Suc (Suc (fresh s)),
                       parentChainCache := (parentChainCache s)(k \<mapsto> fresh s)\<rparr>))
             (getAllParents_loop (itemsMap s) (itemsMap s k) [])"
  using assms
  by (cases "getAllParents_loop (itemsMap s) (itemsMap s k) []")
     (simp_all add: getAllParents_def newArray_def getItem_def)

text \<open>What a call leaves behind: the array it returned is not a cache entry.\<close>

lemma getAllParents_post:
  assumes "cacheAllocated s" and "getAllParents s k = Some (a, s')"
  shows "cacheAllocated s'" and "a < fresh s'" and "\<forall>k'. parentChainCache s' k' \<noteq> Some a"
    and "\<exists>c. parentChainCache s' k = Some c \<and> arrays s' c = arrays s' a"
proof -
  from assms(1) have bound: "\<And>k a. parentChainCache s k = Some a \<Longrightarrow> a < fresh s"
    by (simp add: cacheAllocated_def)
  have "cacheAllocated s' \<and> a < fresh s' \<and> (\<forall>k'. parentChainCache s' k' \<noteq> Some a) \<and>
        (\<exists>c. parentChainCache s' k = Some c \<and> arrays s' c = arrays s' a)"
  proof (cases "parentChainCache s k")
    case None
    from assms(2) obtain xs where
      "a = Suc (fresh s)"
      "s' = s\<lparr>arrays := (arrays s)(fresh s := xs, Suc (fresh s) := xs),
              fresh := Suc (Suc (fresh s)),
              parentChainCache := (parentChainCache s)(k \<mapsto> fresh s)\<rparr>"
      by (auto simp: getAllParents_miss[OF None])
    then show ?thesis
      by (auto simp: cacheAllocated_def less_Suc_eq dest: bound)
  next
    case (Some c)
    from assms(2) have
      "a = fresh s"
      "s' = s\<lparr>arrays := (arrays s)(fresh s := arrays s c), fresh := Suc (fresh s)\<rparr>"
      by (auto simp: getAllParents_hit[OF Some])
    with Some show ?thesis
      by (auto simp: cacheAllocated_def less_Suc_eq dest: bound)
  qed
  then show "cacheAllocated s'" and "a < fresh s'" and "\<forall>k'. parentChainCache s' k' \<noteq> Some a"
    and "\<exists>c. parentChainCache s' k = Some c \<and> arrays s' c = arrays s' a"
    by blast+
qed

lemma getAllParents_address:
  assumes "getAllParents s k = Some (b, t)"
  shows "fresh s \<le> b"
proof (cases "parentChainCache s k")
  case None
  with assms show ?thesis by (auto simp: getAllParents_miss)
next
  case (Some c)
  with assms show ?thesis by (auto simp: getAllParents_hit)
qed

text \<open>A caller's write to an array that is no cache entry commutes with a query.\<close>

lemma getAllParents_writeArray:
  assumes "a < fresh s" and "\<forall>k. parentChainCache s k \<noteq> Some a"
  shows "getAllParents (writeArray a ys s) k =
           map_option (\<lambda>(b, t). (b, writeArray a ys t)) (getAllParents s k)"
proof (cases "parentChainCache s k")
  case None
  then have n: "parentChainCache (writeArray a ys s) k = None"
    by (simp add: writeArray_def)
  from assms(1) have ne: "a \<noteq> fresh s" "a \<noteq> Suc (fresh s)" by auto
  show ?thesis
    unfolding getAllParents_miss[OF n] getAllParents_miss[OF None]
    using ne
    by (cases "getAllParents_loop (itemsMap s) (itemsMap s k) []")
       (auto simp: writeArray_def fun_upd_twist)
next
  case (Some c)
  then have h: "parentChainCache (writeArray a ys s) k = Some c"
    by (simp add: writeArray_def)
  from assms(2) Some have "c \<noteq> a" by auto
  moreover from assms(1) have "a \<noteq> fresh s" by auto
  ultimately show ?thesis
    unfolding getAllParents_hit[OF h] getAllParents_hit[OF Some]
    by (auto simp: writeArray_def fun_upd_twist)
qed

lemma getAllParents_miss_chain:
  assumes "parentChainCache s d = None" and "ancestorChain (itemsMap s) d chain"
  shows "\<exists>a s'. getAllParents s d = Some (a, s') \<and> arrays s' a = chain"
  using assms(1) ancestorChain_loop[OF assms(2), of "[]"]
  by (simp add: getAllParents_miss)

text \<open>The traversal follows the pre-order when no id comes twice and every id is stored.\<close>

lemma traverse_loop_preOrder:
  assumes "preOrderOf s xs visit"
    and "distinct (map itemId visit)"
    and "itemId ` set visit \<inter> V = {}"
    and "\<forall>x \<in> set visit. getItem s (itemId x) \<noteq> None"
  shows "traverse_loop s xs (V, R) =
           Some (V \<union> itemId ` set visit, R @ map (\<lambda>x. the (getItem s (itemId x))) visit)"
  using assms
proof (induction arbitrary: V R rule: preOrderOf.induct)
  case (nil s)
  show ?case by (simp add: traverse_loop_Nil)
next
  case (cons s x below rest others)
  from cons.prems(3) obtain item where item: "getItem s (itemId x) = Some item" by auto
  from cons.prems(2) have nv: "itemId x \<notin> V" by auto
  have 1: "traverse_loop s (getChildren s (itemId x)) (insert (itemId x) V, R @ [item]) =
           Some (insert (itemId x) V \<union> itemId ` set below,
                 (R @ [item]) @ map (\<lambda>x. the (getItem s (itemId x))) below)"
    using cons.prems by (intro cons.IH(1)) auto
  have 2: "traverse_loop s rest (insert (itemId x) V \<union> itemId ` set below,
                 (R @ [item]) @ map (\<lambda>x. the (getItem s (itemId x))) below) =
           Some ((insert (itemId x) V \<union> itemId ` set below) \<union> itemId ` set others,
                 ((R @ [item]) @ map (\<lambda>x. the (getItem s (itemId x))) below)
                    @ map (\<lambda>x. the (getItem s (itemId x))) others)"
    using cons.prems by (intro cons.IH(2)) auto
  have "insert (itemId x) V \<union> itemId ` set below \<union> itemId ` set others
          = V \<union> itemId ` set (x # below @ others)" by auto
  with 1 2 item nv show ?case
    by (simp add: traverse_loop_Cons)
qed


section \<open>Facts about the mutations\<close>

lemma dropCache_empty: "dropCache {} s = s"
  by (simp add: dropCache_def)

lemma invalidateParentChainCache_result:
  assumes "invalidateParentChainCache s k = Some s'"
  shows "s' = dropCache ((kidLinks s)\<^sup>* `` {k}) s"
  using assms invalidateRecursive_result by (simp add: invalidateParentChainCache_def)

lemma invalidateParentChainCache_terminates:
  assumes "wf ((kidLinks s)\<inverse>)"
  shows "invalidateParentChainCache s k = Some (dropCache ((kidLinks s)\<^sup>* `` {k}) s)"
  using invalidateRecursive_terminates[OF assms] by (simp add: invalidateParentChainCache_def)

lemma getChildren_link:
  "getChildren (s\<lparr>childrenMap := (childrenMap s)(p \<mapsto> xs)\<rparr>) q =
     (if q = p then xs else getChildren s q)"
  by (simp add: getChildren_def)

lemma kidLinks_link:
  "kidLinks (s\<lparr>childrenMap := (childrenMap s)(p \<mapsto> getChildren s p @ [r])\<rparr>) =
     insert (p, itemId r) (kidLinks s)"
  by (auto simp: kidLinks_def getChildren_link split: if_splits)

lemma kidLinks_frame: "childrenMap s' = childrenMap s \<Longrightarrow> kidLinks s' = kidLinks s"
  by (simp add: kidLinks_def getChildren_def)

text \<open>An update that keeps the parent: the store it returns.\<close>

lemma updateItem_same_parent:
  assumes "getItem s (itemId u) = Some e" and "parent u = parent e"
  shows "updateItem s u =
           Some (True, s\<lparr>items := (case indexOf e (items s) of
                                      None \<Rightarrow> items s
                                    | Some i \<Rightarrow> (items s)[i := u]),
                         itemsMap := (itemsMap s)(itemId u \<mapsto> u)\<rparr>)"
  using assms by (simp add: updateItem_def Let_def split: option.splits)

text \<open>The store after an insertion that returns, up to the set of dropped cache entries.\<close>

lemma addItem_result:
  assumes "addItem s r = Some s'"
  obtains D where
    "s' = (let s2 = s\<lparr>items := items s @ [r], itemsMap := (itemsMap s)(itemId r \<mapsto> r)\<rparr>;
               s3 = dropCache D
                      (case parent r of
                         None \<Rightarrow> s2
                       | Some p \<Rightarrow>
                           s2\<lparr>childrenMap := (childrenMap s2)(p \<mapsto> getChildren s2 p @ [r])\<rparr>)
           in if childrenMap s3 (itemId r) = None
              then s3\<lparr>childrenMap := (childrenMap s3)(itemId r \<mapsto> [])\<rparr>
              else s3)"
proof (cases "parent r")
  case None
  with assms have
    "s' = (let s2 = s\<lparr>items := items s @ [r], itemsMap := (itemsMap s)(itemId r \<mapsto> r)\<rparr>;
               s3 = dropCache {}
                      (case parent r of
                         None \<Rightarrow> s2
                       | Some p \<Rightarrow>
                           s2\<lparr>childrenMap := (childrenMap s2)(p \<mapsto> getChildren s2 p @ [r])\<rparr>)
           in if childrenMap s3 (itemId r) = None
              then s3\<lparr>childrenMap := (childrenMap s3)(itemId r \<mapsto> [])\<rparr>
              else s3)"
    by (auto simp: addItem_def Let_def dropCache_empty)
  then show ?thesis by (rule that)
next
  case (Some p)
  let ?s2 = "s\<lparr>items := items s @ [r], itemsMap := (itemsMap s)(itemId r \<mapsto> r)\<rparr>"
  let ?sL = "?s2\<lparr>childrenMap := (childrenMap ?s2)(p \<mapsto> getChildren ?s2 p @ [r])\<rparr>"
  from assms Some obtain s3 where i: "invalidateParentChainCache ?sL p = Some s3"
    and s': "s' = (if childrenMap s3 (itemId r) = None
              then s3\<lparr>childrenMap := (childrenMap s3)(itemId r \<mapsto> [])\<rparr> else s3)"
    by (auto simp: addItem_def Let_def bind_eq_Some_conv)
  from invalidateParentChainCache_result[OF i] obtain D where "s3 = dropCache D ?sL"
    by blast
  with s' Some have
    "s' = (let s2 = s\<lparr>items := items s @ [r], itemsMap := (itemsMap s)(itemId r \<mapsto> r)\<rparr>;
               s3 = dropCache D
                      (case parent r of
                         None \<Rightarrow> s2
                       | Some p \<Rightarrow>
                           s2\<lparr>childrenMap := (childrenMap s2)(p \<mapsto> getChildren s2 p @ [r])\<rparr>)
           in if childrenMap s3 (itemId r) = None
              then s3\<lparr>childrenMap := (childrenMap s3)(itemId r \<mapsto> [])\<rparr>
              else s3)"
    by (simp add: Let_def)
  then show ?thesis by (rule that)
qed

lemma addItem_fields:
  assumes "addItem s r = Some s'"
  shows "items s' = items s @ [r]"
    and "itemsMap s' = (itemsMap s)(itemId r \<mapsto> r)"
    and "getChildren s' (itemId r) =
          (if parent r = Some (itemId r) then getChildren s (itemId r) @ [r]
           else getChildren s (itemId r))"
    and "arrays s' = arrays s"
proof -
  from addItem_result[OF assms] obtain D where s':
    "s' = (let s2 = s\<lparr>items := items s @ [r], itemsMap := (itemsMap s)(itemId r \<mapsto> r)\<rparr>;
               s3 = dropCache D
                      (case parent r of
                         None \<Rightarrow> s2
                       | Some p \<Rightarrow>
                           s2\<lparr>childrenMap := (childrenMap s2)(p \<mapsto> getChildren s2 p @ [r])\<rparr>)
           in if childrenMap s3 (itemId r) = None
              then s3\<lparr>childrenMap := (childrenMap s3)(itemId r \<mapsto> [])\<rparr>
              else s3)" .
  show "items s' = items s @ [r]"
    by (subst s') (simp add: Let_def dropCache_fields split: option.splits)
  show "itemsMap s' = (itemsMap s)(itemId r \<mapsto> r)"
    by (subst s') (simp add: Let_def dropCache_fields split: option.splits)
  show "arrays s' = arrays s"
    by (subst s') (simp add: Let_def dropCache_fields split: option.splits)
  show "getChildren s' (itemId r) =
          (if parent r = Some (itemId r) then getChildren s (itemId r) @ [r]
           else getChildren s (itemId r))"
    by (subst s') (auto simp: Let_def dropCache_fields getChildren_def split: option.splits)
qed

text \<open>
  An insertion returns when the children index has no infinite descent and the new
  link does not close a cycle in it.
\<close>

lemma addItem_terminates:
  assumes "wf ((kidLinks s)\<inverse>)"
    and "\<forall>p. parent r = Some p \<longrightarrow> (itemId r, p) \<notin> (kidLinks s)\<^sup>*"
  shows "\<exists>s'. addItem s r = Some s'"
proof (cases "parent r")
  case None
  then show ?thesis by (simp add: addItem_def Let_def)
next
  case (Some p)
  let ?s2 = "s\<lparr>items := items s @ [r], itemsMap := (itemsMap s)(itemId r \<mapsto> r)\<rparr>"
  let ?sL = "?s2\<lparr>childrenMap := (childrenMap ?s2)(p \<mapsto> getChildren ?s2 p @ [r])\<rparr>"
  have k2: "kidLinks ?s2 = kidLinks s" by (rule kidLinks_frame) simp
  have "kidLinks ?sL = insert (p, itemId r) (kidLinks s)"
    using kidLinks_link[of ?s2 p r] k2 by simp
  then have "(kidLinks ?sL)\<inverse> = insert (itemId r, p) ((kidLinks s)\<inverse>)" by auto
  moreover have "(p, itemId r) \<notin> ((kidLinks s)\<inverse>)\<^sup>*"
    using assms(2) Some by (simp add: rtrancl_converse)
  ultimately have "wf ((kidLinks ?sL)\<inverse>)"
    using assms(1) by simp
  from invalidateParentChainCache_terminates[OF this, of p] Some show ?thesis
    by (simp add: addItem_def Let_def)
qed

text \<open>Reparenting: the children index and the links it holds.\<close>

lemma findIndex_splice1:
  "(case findIndex P xs of None \<Rightarrow> xs | Some i \<Rightarrow> splice1 i xs) = removeFirst P xs"
  by (induction xs) (auto simp: splice1_def split: option.splits)

lemma set_removeFirst: "set (removeFirst P xs) \<subseteq> set xs"
  by (induction xs) auto

lemma removeFirst_ids:
  assumes "distinct (map f xs)"
  shows "f ` set (removeFirst (\<lambda>x. f x = c) xs) = f ` set xs - {c}"
  using assms
proof (induction xs)
  case Nil
  show ?case by simp
next
  case (Cons x xs)
  show ?case
  proof (cases "f x = c")
    case True
    with Cons.prems have "c \<notin> f ` set xs" by simp
    with True show ?thesis by simp
  next
    case False
    with Cons show ?thesis by auto
  qed
qed

lemma removeFirst_distinct:
  assumes "distinct (map f xs)"
  shows "distinct (map f (removeFirst P xs))"
  using assms
proof (induction xs)
  case Nil
  show ?case by simp
next
  case (Cons x xs)
  from set_removeFirst[of P xs] have "f ` set (removeFirst P xs) \<subseteq> f ` set xs" by blast
  with Cons show ?case by auto
qed

lemma getChildren_removeFromChildrenMap:
  "getChildren (removeFromChildrenMap t p c) q =
     (if q = p then removeFirst (\<lambda>x. itemId x = c) (getChildren t p) else getChildren t q)"
proof (cases "childrenMap t p")
  case None
  then show ?thesis by (simp add: removeFromChildrenMap_def getChildren_def)
next
  case (Some xs)
  show ?thesis
  proof (cases "findIndex (\<lambda>x. itemId x = c) xs")
    case None
    with Some findIndex_splice1[where P = "\<lambda>x. itemId x = c" and xs = xs] show ?thesis
      by (simp add: removeFromChildrenMap_def getChildren_def)
  next
    case (Some i)
    with \<open>childrenMap t p = Some xs\<close> findIndex_splice1[where P = "\<lambda>x. itemId x = c" and xs = xs]
    show ?thesis
      by (simp add: removeFromChildrenMap_def getChildren_def)
  qed
qed

lemma removeFromChildrenMap_fields:
  "itemsMap (removeFromChildrenMap t p c) = itemsMap t"
  "parentChainCache (removeFromChildrenMap t p c) = parentChainCache t"
  "arrays (removeFromChildrenMap t p c) = arrays t"
  "fresh (removeFromChildrenMap t p c) = fresh t"
  "items (removeFromChildrenMap t p c) = items t"
  by (simp_all add: removeFromChildrenMap_def split: option.splits)

lemma kidLinks_removeFromChildrenMap:
  assumes "distinct (map itemId (getChildren t p))"
  shows "kidLinks (removeFromChildrenMap t p c) = kidLinks t - {(p, c)}"
proof (rule set_eqI, simp only: split_paired_all)
  fix q c'
  show "(q, c') \<in> kidLinks (removeFromChildrenMap t p c) \<longleftrightarrow> (q, c') \<in> kidLinks t - {(p, c)}"
  proof (cases "q = p")
    case True
    with removeFirst_ids[OF assms, of c] show ?thesis
      by (simp add: kidLinks_def getChildren_removeFromChildrenMap)
  next
    case False
    then show ?thesis
      by (simp add: kidLinks_def getChildren_removeFromChildrenMap)
  qed
qed

lemma parentLinks_upd:
  "parentLinks (m(k \<mapsto> u)) =
     (parentLinks m - {(q, k') . k' = k}) \<union> (case parent u of None \<Rightarrow> {} | Some np \<Rightarrow> {(np, k)})"
  by (auto simp: parentLinks_def split: option.splits if_splits)

lemma parentLinks_at:
  assumes "m k = Some e"
  shows "(q, k) \<in> parentLinks m \<longleftrightarrow> parent e = Some q"
  using assms by (auto simp: parentLinks_def)


lemma dropCache_childrenMap:
  "(dropCache D t)\<lparr>childrenMap := X\<rparr> = dropCache D (t\<lparr>childrenMap := X\<rparr>)"
  by (cases t) (auto simp: dropCache_def fun_eq_iff)

text \<open>An update that changes the parent, unfolded.\<close>

lemma updateItem_reparent_unfold:
  assumes "getItem s (itemId u) = Some e" and "parent u \<noteq> parent e"
  shows "updateItem s u =
           do { s3 \<leftarrow> (case parent e of
                         None \<Rightarrow> Some ((case indexOf e (items s) of
                                          None \<Rightarrow> s
                                        | Some index \<Rightarrow> s\<lparr>items := (items s)[index := u]\<rparr>)
                                       \<lparr>itemsMap := (itemsMap s)(itemId u \<mapsto> u)\<rparr>)
                       | Some op \<Rightarrow>
                           invalidateParentChainCache
                             (removeFromChildrenMap
                                ((case indexOf e (items s) of
                                    None \<Rightarrow> s
                                  | Some index \<Rightarrow> s\<lparr>items := (items s)[index := u]\<rparr>)
                                 \<lparr>itemsMap := (itemsMap s)(itemId u \<mapsto> u)\<rparr>)
                                op (itemId u)) op);
                s4 \<leftarrow> (case parent u of
                         None \<Rightarrow> Some s3
                       | Some np \<Rightarrow>
                           invalidateParentChainCache
                             (s3\<lparr>childrenMap := (childrenMap s3)(np \<mapsto> getChildren s3 np @ [u])\<rparr>)
                             np);
                s5 \<leftarrow> invalidateParentChainCacheRecursive s4 (itemId u);
                Some (True, s5) }"
  using assms
  by (cases "indexOf e (items s)"; cases "parent e"; cases "parent u")
     (simp_all add: updateItem_def Let_def)

lemma updateItem_reparent_state:
  assumes fin: "finite (dom (itemsMap s))"
    and cons: "childrenConsistent s"
    and ex: "getItem s (itemId u) = Some e"
    and changed: "parent u \<noteq> parent e"
    and acyc: "acyclic (parentLinks ((itemsMap s)(itemId u \<mapsto> u)))"
  shows "\<exists>s'. updateItem s u = Some (True, s') \<and>
           itemsMap s' = (itemsMap s)(itemId u \<mapsto> u) \<and>
           arrays s' = arrays s \<and>
           kidLinks s' = parentLinks (itemsMap s') \<and>
           (\<forall>p. distinct (map itemId (getChildren s' p))) \<and>
           (\<forall>np. parent u = Some np \<longrightarrow> u \<in> set (getChildren s' np)) \<and>
           (\<forall>d. (itemId u, d) \<in> (parentLinks (itemsMap s'))\<^sup>* \<longrightarrow> parentChainCache s' d = None)"
proof -
  let ?m' = "(itemsMap s)(itemId u \<mapsto> u)"
  let ?s2 = "(case indexOf e (items s) of
                None \<Rightarrow> s
              | Some index \<Rightarrow> s\<lparr>items := (items s)[index := u]\<rparr>)\<lparr>itemsMap := ?m'\<rparr>"
  have m: "itemsMap s (itemId u) = Some e" using ex by (simp add: getItem_def)
  have s2_kids: "getChildren ?s2 = getChildren s"
    by (simp add: getChildren_def fun_eq_iff split: option.splits)
  have s2_arrays: "arrays ?s2 = arrays s" by (simp split: option.splits)
  from cons have K: "kidLinks s = parentLinks (itemsMap s)"
    and dist: "\<And>p. distinct (map itemId (getChildren s p))"
    by (simp_all add: childrenConsistent_def)
  have K2: "kidLinks ?s2 = parentLinks (itemsMap s)"
    using K by (simp add: kidLinks_def s2_kids)
  have finPL: "finite (parentLinks ?m')"
    by (rule finite_parentLinks) (simp add: fin)
  have wfc: "wf ((parentLinks ?m')\<inverse>)"
    by (rule finite_acyclic_wf_converse[OF finPL acyc])
  have PL': "parentLinks ?m' =
      (parentLinks (itemsMap s) - {(q, k). k = itemId u}) \<union>
      (case parent u of None \<Rightarrow> {} | Some np \<Rightarrow> {(np, itemId u)})"
    by (rule parentLinks_upd)

  define t1 where
    "t1 = (case parent e of None \<Rightarrow> ?s2 | Some op \<Rightarrow> removeFromChildrenMap ?s2 op (itemId u))"
  have t1_links: "kidLinks t1 = parentLinks (itemsMap s) - {(q, k). k = itemId u}"
  proof (cases "parent e")
    case None
    with parentLinks_at[where m = "itemsMap s" and k = "itemId u", OF m] have "parentLinks (itemsMap s) \<inter> {(q, k). k = itemId u} = {}"
      by auto
    with None K2 show ?thesis by (auto simp: t1_def)
  next
    case (Some op)
    with parentLinks_at[where m = "itemsMap s" and k = "itemId u", OF m]
    have "parentLinks (itemsMap s) \<inter> {(q, k). k = itemId u} = {(op, itemId u)}"
      by auto
    moreover have "kidLinks t1 = parentLinks (itemsMap s) - {(op, itemId u)}"
      using Some K2 dist[of op]
      by (simp add: t1_def kidLinks_removeFromChildrenMap s2_kids)
    ultimately show ?thesis by auto
  qed
  have t1_items: "itemsMap t1 = ?m'"
    by (simp add: t1_def removeFromChildrenMap_fields split: option.splits)
  have t1_arrays: "arrays t1 = arrays s"
    by (simp add: t1_def removeFromChildrenMap_fields split: option.splits)
  have t1_dist: "distinct (map itemId (getChildren t1 p))" for p
    using dist[of p] removeFirst_distinct[OF dist, of "\<lambda>x. itemId x = itemId u" p]
    by (simp add: t1_def getChildren_removeFromChildrenMap s2_kids split: option.splits)
  have "kidLinks t1 \<subseteq> parentLinks ?m'" using t1_links PL' by auto
  then have "(kidLinks t1)\<inverse> \<subseteq> (parentLinks ?m')\<inverse>" by auto
  with wfc have wf1: "wf ((kidLinks t1)\<inverse>)" by (rule wf_subset)
  obtain D1 where step1:
    "(case parent e of
        None \<Rightarrow> Some ?s2
      | Some op \<Rightarrow>
          invalidateParentChainCache (removeFromChildrenMap ?s2 op (itemId u)) op)
     = Some (dropCache D1 t1)"
  proof (cases "parent e")
    case None
    then have "(case parent e of
        None \<Rightarrow> Some ?s2
      | Some op \<Rightarrow>
          invalidateParentChainCache (removeFromChildrenMap ?s2 op (itemId u)) op)
     = Some (dropCache {} t1)"
      by (simp add: t1_def dropCache_empty)
    then show ?thesis by (rule that)
  next
    case (Some op)
    with wf1 have "wf ((kidLinks (removeFromChildrenMap ?s2 op (itemId u)))\<inverse>)"
      by (simp add: t1_def)
    from invalidateParentChainCache_terminates[OF this, of op] Some
    have "(case parent e of
        None \<Rightarrow> Some ?s2
      | Some op \<Rightarrow>
          invalidateParentChainCache (removeFromChildrenMap ?s2 op (itemId u)) op)
     = Some (dropCache ((kidLinks t1)\<^sup>* `` {op}) t1)"
      by (simp add: t1_def)
    then show ?thesis by (rule that)
  qed

  define t2 where
    "t2 = (case parent u of
             None \<Rightarrow> t1
           | Some np \<Rightarrow> t1\<lparr>childrenMap := (childrenMap t1)(np \<mapsto> getChildren t1 np @ [u])\<rparr>)"
  have t2_links: "kidLinks t2 = parentLinks ?m'"
  proof (cases "parent u")
    case None
    with t1_links PL' show ?thesis by (simp add: t2_def)
  next
    case (Some np)
    with t1_links PL' kidLinks_link[of t1 np u] show ?thesis by (auto simp: t2_def)
  qed
  have t2_items: "itemsMap t2 = ?m'"
    using t1_items by (simp add: t2_def split: option.splits)
  have t2_arrays: "arrays t2 = arrays s"
    using t1_arrays by (simp add: t2_def split: option.splits)
  have t2_new: "u \<in> set (getChildren t2 np)" if "parent u = Some np" for np
    using that by (simp add: t2_def getChildren_link)
  have t2_dist: "distinct (map itemId (getChildren t2 p))" for p
  proof (cases "parent u")
    case None
    with t1_dist show ?thesis by (simp add: t2_def)
  next
    case (Some np)
    have "(np, itemId u) \<notin> kidLinks t1" using t1_links by auto
    then have "itemId u \<notin> itemId ` set (getChildren t1 np)" by (simp add: kidLinks_def)
    with Some t1_dist[of p] t1_dist[of np] show ?thesis
      by (simp add: t2_def getChildren_link)
  qed
  from wfc t2_links have wf2: "wf ((kidLinks t2)\<inverse>)" by simp
  then have wf2': "wf ((kidLinks (dropCache D t2))\<inverse>)" for D
    by (simp add: kidLinks_dropCache)
  obtain D2 where step2:
    "(case parent u of
        None \<Rightarrow> Some (dropCache D1 t1)
      | Some np \<Rightarrow>
          invalidateParentChainCache
            ((dropCache D1 t1)\<lparr>childrenMap :=
                (childrenMap (dropCache D1 t1))(np \<mapsto> getChildren (dropCache D1 t1) np @ [u])\<rparr>)
            np)
     = Some (dropCache D2 t2)"
  proof (cases "parent u")
    case None
    then have "(case parent u of
        None \<Rightarrow> Some (dropCache D1 t1)
      | Some np \<Rightarrow>
          invalidateParentChainCache
            ((dropCache D1 t1)\<lparr>childrenMap :=
                (childrenMap (dropCache D1 t1))(np \<mapsto> getChildren (dropCache D1 t1) np @ [u])\<rparr>)
            np)
     = Some (dropCache D1 t2)"
      by (simp add: t2_def)
    then show ?thesis by (rule that)
  next
    case (Some np)
    have eq: "(dropCache D1 t1)\<lparr>childrenMap :=
                (childrenMap (dropCache D1 t1))(np \<mapsto> getChildren (dropCache D1 t1) np @ [u])\<rparr>
              = dropCache D1 t2"
      using Some
      by (simp add: t2_def dropCache_childrenMap dropCache_fields getChildren_dropCache)
    from invalidateParentChainCache_terminates[OF wf2'[of D1], of np] Some
    have "(case parent u of
        None \<Rightarrow> Some (dropCache D1 t1)
      | Some np \<Rightarrow>
          invalidateParentChainCache
            ((dropCache D1 t1)\<lparr>childrenMap :=
                (childrenMap (dropCache D1 t1))(np \<mapsto> getChildren (dropCache D1 t1) np @ [u])\<rparr>)
            np)
     = Some (dropCache ((kidLinks t2)\<^sup>* `` {np} \<union> D1) t2)"
      by (simp add: eq kidLinks_dropCache dropCache_dropCache)
    then show ?thesis by (rule that)
  qed
  have step3: "invalidateParentChainCacheRecursive (dropCache D2 t2) (itemId u)
        = Some (dropCache ((kidLinks t2)\<^sup>* `` {itemId u} \<union> D2) t2)"
    using invalidateRecursive_terminates[OF wf2'[of D2], of "itemId u"]
    by (simp add: kidLinks_dropCache dropCache_dropCache)
  let ?s' = "dropCache ((kidLinks t2)\<^sup>* `` {itemId u} \<union> D2) t2"
  have run: "updateItem s u = Some (True, ?s')"
    by (simp only: updateItem_reparent_unfold[OF ex changed] step1 step2 step3 bind.bind_lunit)
  have "itemsMap ?s' = ?m'" by (simp add: dropCache_fields t2_items)
  moreover have "arrays ?s' = arrays s" by (simp add: dropCache_fields t2_arrays)
  moreover have "kidLinks ?s' = parentLinks (itemsMap ?s')"
    by (simp add: kidLinks_dropCache dropCache_fields t2_items t2_links)
  moreover have "\<forall>p. distinct (map itemId (getChildren ?s' p))"
    by (simp add: getChildren_dropCache t2_dist)
  moreover have "\<forall>np. parent u = Some np \<longrightarrow> u \<in> set (getChildren ?s' np)"
    by (simp add: getChildren_dropCache t2_new)
  moreover have "\<forall>d. (itemId u, d) \<in> (parentLinks (itemsMap ?s'))\<^sup>* \<longrightarrow> parentChainCache ?s' d = None"
    by (simp add: dropCache_fields t2_items t2_links) (simp add: dropCache_def)
  ultimately show ?thesis using run by blast
qed

section \<open>Stores reached through the interface\<close>

text \<open>
  No mutation adds a cache entry or allocates an array, so the cache of every store
  reached from \<^verbatim>\<open>new TreeStore()\<close> only refers to allocated arrays.
\<close>

lemma cacheWithin_refl: "cacheWithin s s"
  by (simp add: cacheWithin_def)

lemma cacheWithin_trans: "cacheWithin s t \<Longrightarrow> cacheWithin t r \<Longrightarrow> cacheWithin s r"
  by (simp add: cacheWithin_def)

lemma cacheWithin_allocated: "cacheWithin s s' \<Longrightarrow> cacheAllocated s \<Longrightarrow> cacheAllocated s'"
  by (auto simp: cacheWithin_def cacheAllocated_def)

lemma cacheWithin_dropCache: "cacheWithin s (dropCache D s)"
  by (simp add: cacheWithin_def dropCache_def)

lemma cacheWithin_same:
  "fresh s' = fresh s \<Longrightarrow> parentChainCache s' = parentChainCache s \<Longrightarrow> cacheWithin s s'"
  by (simp add: cacheWithin_def)

lemma cacheWithin_invalidate:
  assumes "invalidateParentChainCache s k = Some s'"
  shows "cacheWithin s s'"
  using invalidateParentChainCache_result[OF assms] by (simp add: cacheWithin_dropCache)

lemma cacheWithin_invalidateRecursive:
  assumes "invalidateParentChainCacheRecursive s k = Some s'"
  shows "cacheWithin s s'"
  using invalidateRecursive_result[OF assms] by (simp add: cacheWithin_dropCache)

lemma cacheWithin_removeOne: "cacheWithin s (removeOne x s)"
  by (simp add: cacheWithin_def removeOne_def Let_def split: option.splits if_splits)

lemma cacheWithin_fold_removeOne: "cacheWithin s (fold removeOne xs s)"
proof (induction xs arbitrary: s)
  case Nil
  show ?case by (simp add: cacheWithin_refl)
next
  case (Cons x xs)
  from cacheWithin_removeOne[of s x] Cons[of "removeOne x s"] show ?case
    by (simp add: cacheWithin_trans)
qed

lemma cacheWithin_removeFromChildrenMap: "cacheWithin s (removeFromChildrenMap s p c)"
  by (rule cacheWithin_same) (simp_all add: removeFromChildrenMap_fields)

lemma cacheWithin_addItem:
  assumes "addItem s r = Some s'"
  shows "cacheWithin s s'"
proof -
  from addItem_result[OF assms] obtain D where s':
    "s' = (let s2 = s\<lparr>items := items s @ [r], itemsMap := (itemsMap s)(itemId r \<mapsto> r)\<rparr>;
               s3 = dropCache D
                      (case parent r of
                         None \<Rightarrow> s2
                       | Some p \<Rightarrow>
                           s2\<lparr>childrenMap := (childrenMap s2)(p \<mapsto> getChildren s2 p @ [r])\<rparr>)
           in if childrenMap s3 (itemId r) = None
              then s3\<lparr>childrenMap := (childrenMap s3)(itemId r \<mapsto> [])\<rparr>
              else s3)" .
  show ?thesis
    by (subst s') (simp add: cacheWithin_def Let_def dropCache_def split: option.splits)
qed

lemma cacheWithin_removeItem:
  assumes "removeItem s k = Some (b, s')"
  shows "cacheWithin s s'"
proof (cases "getItem s k")
  case None
  with assms show ?thesis by (simp add: removeItem_def cacheWithin_refl)
next
  case (Some item)
  with assms obtain allChildren s2 where
    s2: "(case parent item of
            None \<Rightarrow> Some (fold removeOne (item # allChildren) s)
          | Some p \<Rightarrow>
              invalidateParentChainCache
                (removeFromChildrenMap (fold removeOne (item # allChildren) s) p k) p) = Some s2"
    and s': "s' = s2"
    by (auto simp: removeItem_def bind_eq_Some_conv Let_def)
  have 1: "cacheWithin s (fold removeOne (item # allChildren) s)"
    by (rule cacheWithin_fold_removeOne)
  show ?thesis
  proof (cases "parent item")
    case None
    with s2 s' 1 show ?thesis by simp
  next
    case (Some p)
    with s2 have "cacheWithin (removeFromChildrenMap (fold removeOne (item # allChildren) s) p k) s2"
      by (simp add: cacheWithin_invalidate)
    with 1 cacheWithin_removeFromChildrenMap[of "fold removeOne (item # allChildren) s" p k] s'
    show ?thesis by (blast intro: cacheWithin_trans)
  qed
qed

lemma cacheWithin_updateItem:
  assumes "updateItem s u = Some (b, s')"
  shows "cacheWithin s s'"
proof (cases "getItem s (itemId u)")
  case None
  with assms show ?thesis by (simp add: updateItem_def cacheWithin_refl)
next
  case (Some e)
  show ?thesis
  proof (cases "parent u = parent e")
    case True
    from assms updateItem_same_parent[OF Some True] show ?thesis
      by (auto simp: cacheWithin_def)
  next
    case False
    let ?s2 = "(case indexOf e (items s) of
                  None \<Rightarrow> s
                | Some index \<Rightarrow> s\<lparr>items := (items s)[index := u]\<rparr>)
               \<lparr>itemsMap := (itemsMap s)(itemId u \<mapsto> u)\<rparr>"
    have 0: "cacheWithin s ?s2"
      by (rule cacheWithin_same) (simp_all split: option.splits)
    from assms obtain s3 s4 where
      a: "(case parent e of
             None \<Rightarrow> Some ?s2
           | Some op \<Rightarrow>
               invalidateParentChainCache (removeFromChildrenMap ?s2 op (itemId u)) op) = Some s3"
      and b: "(case parent u of
                 None \<Rightarrow> Some s3
               | Some np \<Rightarrow>
                   invalidateParentChainCache
                     (s3\<lparr>childrenMap := (childrenMap s3)(np \<mapsto> getChildren s3 np @ [u])\<rparr>)
                     np) = Some s4"
      and c: "invalidateParentChainCacheRecursive s4 (itemId u) = Some s'"
      by (auto simp: updateItem_reparent_unfold[OF Some False] bind_eq_Some_conv)
    have 1: "cacheWithin ?s2 s3"
    proof (cases "parent e")
      case None
      with a show ?thesis by (auto simp: cacheWithin_refl)
    next
      case (Some op)
      with a cacheWithin_removeFromChildrenMap[of ?s2 op "itemId u"] show ?thesis
        by (auto intro: cacheWithin_trans cacheWithin_invalidate)
    qed
    have 2: "cacheWithin s3 s4"
    proof (cases "parent u")
      case None
      with b show ?thesis by (auto simp: cacheWithin_refl)
    next
      case (Some np)
      have "cacheWithin s3 (s3\<lparr>childrenMap := (childrenMap s3)(np \<mapsto> getChildren s3 np @ [u])\<rparr>)"
        by (rule cacheWithin_same) simp_all
      with b Some show ?thesis
        by (auto intro: cacheWithin_trans cacheWithin_invalidate)
    qed
    from 0 1 2 cacheWithin_invalidateRecursive[OF c] show ?thesis
      by (blast intro: cacheWithin_trans)
  qed
qed

lemma fold_registerItem_cache:
  "parentChainCache (fold registerItem xs s) = parentChainCache s \<and>
   fresh (fold registerItem xs s) = fresh s \<and> items (fold registerItem xs s) = items s"
  by (induction xs arbitrary: s) (simp_all add: registerItem_def Let_def)

lemma fold_linkItem_cache:
  "parentChainCache (fold linkItem xs s) = parentChainCache s \<and>
   fresh (fold linkItem xs s) = fresh s \<and> itemsMap (fold linkItem xs s) = itemsMap s"
  by (induction xs arbitrary: s) (simp_all add: linkItem_def split: option.splits)

lemma cacheAllocated_update: "cacheAllocated (update s newItems)"
  by (simp add: cacheAllocated_def update_def buildIndexes_def Let_def
        fold_linkItem_cache fold_registerItem_cache)

lemma cacheAllocated_newTreeStore: "cacheAllocated newTreeStore"
  by (simp add: cacheAllocated_def newTreeStore_def)

text \<open>
  \<^verbatim>\<open>update\<close> with records of unique ids builds a finite id index and a children index
  that agrees with it.
\<close>

lemma getChildren_linkItem:
  "getChildren (linkItem x s) q =
     (if parent x = Some q then getChildren s q @ [x] else getChildren s q)"
  by (simp add: linkItem_def getChildren_def split: option.splits)

lemma itemsMap_linkItem: "itemsMap (linkItem x s) = itemsMap s" "items (linkItem x s) = items s"
  by (simp_all add: linkItem_def split: option.splits)

lemma fold_linkItem:
  "getChildren (fold linkItem xs s) q = getChildren s q @ filter (\<lambda>x. parent x = Some q) xs \<and>
   itemsMap (fold linkItem xs s) = itemsMap s \<and> items (fold linkItem xs s) = items s"
  by (induction xs arbitrary: s) (simp_all add: getChildren_linkItem itemsMap_linkItem)

lemma getChildren_registerItem: "getChildren (registerItem x s) q = getChildren s q"
  by (simp add: registerItem_def getChildren_def Let_def)

lemma itemsMap_registerItem: "itemsMap (registerItem x s) = (itemsMap s)(itemId x \<mapsto> x)"
  by (simp add: registerItem_def Let_def)

lemma items_registerItem: "items (registerItem x s) = items s"
  by (simp add: registerItem_def Let_def)

lemma fold_registerItem_children:
  "getChildren (fold registerItem xs s) q = getChildren s q \<and>
   items (fold registerItem xs s) = items s"
  by (induction xs arbitrary: s) (simp_all add: getChildren_registerItem items_registerItem)

lemma fold_registerItem_itemsMap:
  assumes "distinct (map itemId xs)"
  shows "itemsMap (fold registerItem xs s) k = Some x \<longleftrightarrow>
           (x \<in> set xs \<and> itemId x = k) \<or> (k \<notin> itemId ` set xs \<and> itemsMap s k = Some x)"
  using assms
proof (induction xs arbitrary: s)
  case Nil
  show ?case by simp
next
  case (Cons a xs)
  from Cons.prems have d: "distinct (map itemId xs)" and n: "itemId a \<notin> itemId ` set xs"
    by simp_all
  show ?case
    using Cons.IH[OF d, of "registerItem a s"] n
    by (auto simp: itemsMap_registerItem)
qed

text \<open>What \<^verbatim>\<open>update\<close> builds from records with unique ids.\<close>

lemma update_indexes:
  assumes "distinct (map itemId newItems)"
  shows "items (update s newItems) = newItems"
    and "itemsMap (update s newItems) k = Some x \<longleftrightarrow> x \<in> set newItems \<and> itemId x = k"
    and "getChildren (update s newItems) q = filter (\<lambda>x. parent x = Some q) newItems"
proof -
  let ?s0 = "s\<lparr>items := newItems, itemsMap := Map.empty, childrenMap := Map.empty,
                parentChainCache := Map.empty\<rparr>"
  let ?s1 = "fold registerItem newItems ?s0"
  have u: "update s newItems = fold linkItem newItems ?s1"
    by (simp add: update_def buildIndexes_def Let_def fold_registerItem_children)
  show "items (update s newItems) = newItems"
    by (simp add: u fold_linkItem fold_registerItem_children)
  show "itemsMap (update s newItems) k = Some x \<longleftrightarrow> x \<in> set newItems \<and> itemId x = k"
    using fold_registerItem_itemsMap[OF assms, of ?s0 k x]
    by (simp add: u fold_linkItem)
  show "getChildren (update s newItems) q = filter (\<lambda>x. parent x = Some q) newItems"
    by (simp add: u fold_linkItem fold_registerItem_children) (simp add: getChildren_def)
qed

lemma update_consistent:
  assumes "distinct (map itemId newItems)"
  shows "childrenConsistent (update s newItems)"
    and "finite (dom (itemsMap (update s newItems)))"
proof -
  note ix = update_indexes[OF assms, of s]
  have "kidLinks (update s newItems) = parentLinks (itemsMap (update s newItems))"
    by (rule set_eqI, simp only: split_paired_all)
       (auto simp: kidLinks_def parentLinks_def ix(2,3))
  moreover have "distinct (map itemId (getChildren (update s newItems) p))" for p
    using assms by (simp add: ix(3) distinct_map_filter)
  ultimately show "childrenConsistent (update s newItems)"
    by (simp add: childrenConsistent_def)
  have "dom (itemsMap (update s newItems)) \<subseteq> itemId ` set newItems"
    using ix(2) by (auto simp: dom_def)
  then show "finite (dom (itemsMap (update s newItems)))"
    by (rule finite_subset) simp
qed

text \<open>
  \<^verbatim>\<open>getAllChildren\<close> collects the ids below an id; \<^verbatim>\<open>removeItem\<close> deletes them from
  the id index, the children index and the cache.
\<close>

lemma getAllChildren_loop_ids:
  assumes "getAllChildren_loop s cs acc = Some r"
  shows "itemId ` set r = itemId ` set acc \<union> (kidLinks s)\<^sup>* `` (itemId ` set cs)"
proof -
  let ?P = "\<lambda>s cs acc r.
     itemId ` set r = itemId ` set acc \<union> (kidLinks s)\<^sup>* `` (itemId ` set cs)"
  have step: "?P s cs acc r"
    if ih: "\<And>s cs acc y. f s cs acc = Some y \<Longrightarrow> ?P s cs acc y"
    and eq: "(case cs of [] \<Rightarrow> Some acc
             | child # rest \<Rightarrow>
                 f s (getChildren s (itemId child)) [] \<bind>
                 (\<lambda>childDescendants. f s rest (acc @ [child] @ childDescendants))) = Some r"
    for f s cs acc r
  proof (cases cs)
    case Nil
    with eq show ?thesis by simp
  next
    case (Cons child rest)
    from eq Cons obtain ds where a: "f s (getChildren s (itemId child)) [] = Some ds"
      and b: "f s rest (acc @ [child] @ ds) = Some r"
      by (auto simp: bind_eq_Some_conv)
    from ih[OF a] have 1: "itemId ` set ds = (kidLinks s)\<^sup>* `` (itemId ` set (getChildren s (itemId child)))"
      by simp
    from ih[OF b] have "itemId ` set r =
        itemId ` set acc \<union> insert (itemId child) (itemId ` set ds) \<union> (kidLinks s)\<^sup>* `` (itemId ` set rest)"
      by (simp add: image_Un Un_assoc)
    also have "insert (itemId child) (itemId ` set ds) = (kidLinks s)\<^sup>* `` {itemId child}"
      by (simp add: 1 kids_closure)
    finally show ?thesis using Cons by auto
  qed
  show ?thesis
    by (rule getAllChildren_loop.raw_induct[where P = ?P, OF step assms])
qed

lemma getAllChildren_ids:
  assumes "getAllChildren s k = Some ds"
  shows "insert k (itemId ` set ds) = (kidLinks s)\<^sup>* `` {k}"
  using getAllChildren_loop_ids[OF assms[unfolded getAllChildren_def]]
  by (simp add: kids_closure)

lemma removeOne_fields:
  "itemsMap (removeOne x s) = (itemsMap s)(itemId x := None)"
  "childrenMap (removeOne x s) = (childrenMap s)(itemId x := None)"
  "parentChainCache (removeOne x s) = (parentChainCache s)(itemId x := None)"
  "arrays (removeOne x s) = arrays s"
  "fresh (removeOne x s) = fresh s"
  by (simp_all add: removeOne_def Let_def split: option.splits)

lemma fold_removeOne_fields:
  "itemsMap (fold removeOne xs s) j = (if j \<in> itemId ` set xs then None else itemsMap s j)"
  "childrenMap (fold removeOne xs s) j = (if j \<in> itemId ` set xs then None else childrenMap s j)"
  "parentChainCache (fold removeOne xs s) j =
     (if j \<in> itemId ` set xs then None else parentChainCache s j)"
  by (induction xs arbitrary: s) (auto simp: removeOne_fields)

lemma getChildren_fold_removeOne:
  "getChildren (fold removeOne xs s) q = (if q \<in> itemId ` set xs then [] else getChildren s q)"
  by (simp add: getChildren_def fold_removeOne_fields)

text \<open>Removal of a stored record, when the children index has no infinite descent.\<close>

lemma removeItem_result:
  assumes wf: "wf ((kidLinks s)\<inverse>)"
    and item: "getItem s k = Some item" and key: "itemId item = k"
  shows "\<exists>s'. removeItem s k = Some (True, s') \<and>
           (\<forall>j. itemsMap s' j = (if j \<in> (kidLinks s)\<^sup>* `` {k} then None else itemsMap s j)) \<and>
           (\<forall>q. getChildren s' q =
                  (if q \<in> (kidLinks s)\<^sup>* `` {k} then []
                   else if parent item = Some q
                   then removeFirst (\<lambda>x. itemId x = k) (getChildren s q)
                   else getChildren s q)) \<and>
           (\<forall>j \<in> (kidLinks s)\<^sup>* `` {k}. parentChainCache s' j = None)"
proof -
  let ?R = "(kidLinks s)\<^sup>* `` {k}"
  from getAllChildren_loop_terminates[OF wf, of k] obtain ds where
    ds: "getAllChildren s k = Some ds"
    by (auto simp: getAllChildren_def)
  from getAllChildren_ids[OF ds] key have R: "itemId ` set (item # ds) = ?R" by simp
  define s1 where "s1 = fold removeOne (item # ds) s"
  have s1_items: "itemsMap s1 j = (if j \<in> ?R then None else itemsMap s j)" for j
    using fold_removeOne_fields(1)[of "item # ds" s j] unfolding R s1_def .
  have s1_cache: "parentChainCache s1 j = (if j \<in> ?R then None else parentChainCache s j)" for j
    using fold_removeOne_fields(3)[of "item # ds" s j] unfolding R s1_def .
  have s1_kids: "getChildren s1 q = (if q \<in> ?R then [] else getChildren s q)" for q
    using getChildren_fold_removeOne[of "item # ds" s q] unfolding R s1_def .
  have unfold: "removeItem s k =
      do { s2 \<leftarrow> (case parent item of
                    None \<Rightarrow> Some s1
                  | Some p \<Rightarrow> invalidateParentChainCache (removeFromChildrenMap s1 p k) p);
           Some (True, s2) }"
    unfolding s1_def using item ds by (simp add: removeItem_def Let_def)
  show ?thesis
  proof (cases "parent item")
    case None
    then have run: "removeItem s k = Some (True, s1)"
      by (simp add: unfold)
    from None s1_items s1_cache s1_kids show ?thesis
      unfolding run by auto
  next
    case (Some p)
    define s2 where "s2 = removeFromChildrenMap s1 p k"
    have s2_kids: "getChildren s2 q =
        (if q \<in> ?R then [] else if q = p then removeFirst (\<lambda>x. itemId x = k) (getChildren s q)
         else getChildren s q)" for q
      by (simp add: s2_def getChildren_removeFromChildrenMap s1_kids)
    have s2_items: "itemsMap s2 = itemsMap s1" and s2_cache: "parentChainCache s2 = parentChainCache s1"
      by (simp_all add: s2_def removeFromChildrenMap_fields)
    have "kidLinks s2 \<subseteq> kidLinks s"
      using set_removeFirst[of "\<lambda>x. itemId x = k" "getChildren s p"]
      by (auto simp: kidLinks_def s2_kids split: if_splits)
    then have "(kidLinks s2)\<inverse> \<subseteq> (kidLinks s)\<inverse>" by auto
    with wf have "wf ((kidLinks s2)\<inverse>)" by (rule wf_subset)
    from invalidateParentChainCache_terminates[OF this, of p] Some
    have run: "removeItem s k = Some (True, dropCache ((kidLinks s2)\<^sup>* `` {p}) s2)"
      by (simp add: unfold s2_def)
    have "\<forall>j. itemsMap (dropCache ((kidLinks s2)\<^sup>* `` {p}) s2) j =
              (if j \<in> ?R then None else itemsMap s j)"
      by (simp add: dropCache_fields s2_items s1_items)
    moreover have "\<forall>q. getChildren (dropCache ((kidLinks s2)\<^sup>* `` {p}) s2) q =
                  (if q \<in> ?R then []
                   else if parent item = Some q
                   then removeFirst (\<lambda>x. itemId x = k) (getChildren s q)
                   else getChildren s q)"
      using Some by (auto simp: getChildren_dropCache s2_kids)
    moreover have "\<forall>j \<in> ?R. parentChainCache (dropCache ((kidLinks s2)\<^sup>* `` {p}) s2) j = None"
      by (simp add: dropCache_def s2_cache s1_cache)
    ultimately show ?thesis unfolding run by blast
  qed
qed

text \<open>
  Well-formed stores: \<^verbatim>\<open>update\<close> builds one from records with unique ids and acyclic
  links, and every mutation that keeps the ids unique and the links acyclic returns and
  leaves the store well-formed.
\<close>

lemma wellFormed_wf:
  assumes "wellFormed s"
  shows "wf ((kidLinks s)\<inverse>)" and "wf (parentLinks (itemsMap s))"
proof -
  from assms have fin: "finite (parentLinks (itemsMap s))"
    and ac: "acyclic (parentLinks (itemsMap s))"
    and K: "kidLinks s = parentLinks (itemsMap s)"
    by (simp_all add: wellFormed_def childrenConsistent_def finite_parentLinks)
  show "wf ((kidLinks s)\<inverse>)" unfolding K by (rule finite_acyclic_wf_converse[OF fin ac])
  show "wf (parentLinks (itemsMap s))" by (rule finite_acyclic_wf[OF fin ac])
qed

lemma wellFormed_update:
  assumes "distinct (map itemId newItems)"
    and "acyclic {(p, itemId x) | p x. x \<in> set newItems \<and> parent x = Some p}"
  shows "wellFormed (update s newItems)"
proof -
  note ix = update_indexes[OF assms(1), of s]
  have "parentLinks (itemsMap (update s newItems)) =
          {(p, itemId x) | p x. x \<in> set newItems \<and> parent x = Some p}"
    by (auto simp: parentLinks_def ix(2))
  with assms(2) update_consistent[OF assms(1), of s] ix(2) show ?thesis
    by (simp add: wellFormed_def)
qed

lemma wellFormed_updateItem_same_parent:
  assumes "wellFormed s" and "getItem s (itemId u) = Some e" and "parent u = parent e"
  shows "\<exists>s'. updateItem s u = Some (True, s') \<and> wellFormed s'"
proof -
  let ?s' = "s\<lparr>items := (case indexOf e (items s) of
                            None \<Rightarrow> items s
                          | Some i \<Rightarrow> (items s)[i := u]),
               itemsMap := (itemsMap s)(itemId u \<mapsto> u)\<rparr>"
  have m: "itemsMap s (itemId u) = Some e" using assms(2) by (simp add: getItem_def)
  have pl: "parentLinks ((itemsMap s)(itemId u \<mapsto> u)) = parentLinks (itemsMap s)"
    using parentLinks_at[where m = "itemsMap s" and k = "itemId u", OF m] assms(3)
    by (auto simp: parentLinks_upd split: option.splits)
  have k: "kidLinks ?s' = kidLinks s" by (rule kidLinks_frame) simp
  have g: "getChildren ?s' = getChildren s" by (simp add: getChildren_def fun_eq_iff)
  from assms(1) have "wellFormed ?s'"
    by (auto simp: wellFormed_def childrenConsistent_def pl k g)
  with updateItem_same_parent[OF assms(2,3)] show ?thesis by simp
qed

lemma wellFormed_updateItem_reparent:
  assumes "wellFormed s" and "getItem s (itemId u) = Some e" and "parent u \<noteq> parent e"
    and "acyclic (parentLinks ((itemsMap s)(itemId u \<mapsto> u)))"
  shows "\<exists>s'. updateItem s u = Some (True, s') \<and> wellFormed s'"
proof -
  from assms(1) have fin: "finite (dom (itemsMap s))" and cons: "childrenConsistent s"
    and keyed: "\<forall>k x. itemsMap s k = Some x \<longrightarrow> itemId x = k"
    by (simp_all add: wellFormed_def)
  from updateItem_reparent_state[OF fin cons assms(2,3,4)] obtain s' where
    run: "updateItem s u = Some (True, s')"
    and im: "itemsMap s' = (itemsMap s)(itemId u \<mapsto> u)"
    and links: "kidLinks s' = parentLinks (itemsMap s')"
    and dist: "\<forall>p. distinct (map itemId (getChildren s' p))"
    by blast
  have "wellFormed s'"
    using fin keyed assms(4) links dist
    by (simp add: wellFormed_def childrenConsistent_def im)
  with run show ?thesis by blast
qed

lemma wellFormed_addItem:
  assumes "wellFormed s" and "getItem s (itemId r) = None"
    and "acyclic (parentLinks ((itemsMap s)(itemId r \<mapsto> r)))"
  shows "\<exists>s'. addItem s r = Some s' \<and> wellFormed s'"
proof -
  let ?m' = "(itemsMap s)(itemId r \<mapsto> r)"
  from assms(1) have fin: "finite (dom (itemsMap s))"
    and keyed: "\<forall>k x. itemsMap s k = Some x \<longrightarrow> itemId x = k"
    and K: "kidLinks s = parentLinks (itemsMap s)"
    and dist: "\<And>p. distinct (map itemId (getChildren s p))"
    by (simp_all add: wellFormed_def childrenConsistent_def)
  have none: "itemsMap s (itemId r) = None" using assms(2) by (simp add: getItem_def)
  then have nolink: "(q, itemId r) \<notin> parentLinks (itemsMap s)" for q
    by (simp add: parentLinks_def)
  have PL': "parentLinks ?m' =
      parentLinks (itemsMap s) \<union> (case parent r of None \<Rightarrow> {} | Some p \<Rightarrow> {(p, itemId r)})"
    using nolink by (auto simp: parentLinks_upd)
  have finPL: "finite (parentLinks ?m')" by (rule finite_parentLinks) (simp add: fin)
  have wfc: "wf ((parentLinks ?m')\<inverse>)" by (rule finite_acyclic_wf_converse[OF finPL assms(3)])
  let ?s2 = "s\<lparr>items := items s @ [r], itemsMap := ?m'\<rparr>"
  define sL where
    "sL = (case parent r of
             None \<Rightarrow> ?s2
           | Some p \<Rightarrow> ?s2\<lparr>childrenMap := (childrenMap ?s2)(p \<mapsto> getChildren ?s2 p @ [r])\<rparr>)"
  have g2: "getChildren ?s2 = getChildren s" by (simp add: getChildren_def fun_eq_iff)
  have k2: "kidLinks ?s2 = kidLinks s" by (rule kidLinks_frame) simp
  have sL_links: "kidLinks sL = parentLinks ?m'"
  proof (cases "parent r")
    case None
    with PL' K k2 show ?thesis by (simp add: sL_def)
  next
    case (Some p)
    with PL' K k2 kidLinks_link[of ?s2 p r] show ?thesis by (simp add: sL_def)
  qed
  have sL_items: "itemsMap sL = ?m'" by (simp add: sL_def split: option.splits)
  have sL_dist: "distinct (map itemId (getChildren sL p))" for p
  proof (cases "parent r")
    case None
    with dist[of p] show ?thesis by (simp add: sL_def g2)
  next
    case (Some q)
    from nolink[of q] K have "(q, itemId r) \<notin> kidLinks s" by simp
    then have "itemId r \<notin> itemId ` set (getChildren s q)"
      by (simp add: kidLinks_def)
    moreover have "getChildren sL p = (if p = q then getChildren s q @ [r] else getChildren s p)"
      using Some by (simp add: sL_def getChildren_def)
    ultimately show ?thesis using dist[of p] dist[of q] by simp
  qed
  from wfc sL_links have wfL: "wf ((kidLinks sL)\<inverse>)" by simp
  obtain D where s3: "(case parent r of
                 None \<Rightarrow> Some ?s2
               | Some p \<Rightarrow>
                   invalidateParentChainCache
                     (?s2\<lparr>childrenMap := (childrenMap ?s2)(p \<mapsto> getChildren ?s2 p @ [r])\<rparr>) p)
            = Some (dropCache D sL)"
  proof (cases "parent r")
    case None
    then have "(case parent r of
                 None \<Rightarrow> Some ?s2
               | Some p \<Rightarrow>
                   invalidateParentChainCache
                     (?s2\<lparr>childrenMap := (childrenMap ?s2)(p \<mapsto> getChildren ?s2 p @ [r])\<rparr>) p)
            = Some (dropCache {} sL)"
      by (simp add: sL_def dropCache_empty)
    then show ?thesis by (rule that)
  next
    case (Some p)
    with wfL have "wf ((kidLinks (?s2\<lparr>childrenMap := (childrenMap ?s2)(p \<mapsto> getChildren ?s2 p @ [r])\<rparr>))\<inverse>)"
      by (simp add: sL_def)
    from invalidateParentChainCache_terminates[OF this, of p] Some
    have "(case parent r of
                 None \<Rightarrow> Some ?s2
               | Some p \<Rightarrow>
                   invalidateParentChainCache
                     (?s2\<lparr>childrenMap := (childrenMap ?s2)(p \<mapsto> getChildren ?s2 p @ [r])\<rparr>) p)
            = Some (dropCache ((kidLinks sL)\<^sup>* `` {p}) sL)"
      by (simp add: sL_def)
    then show ?thesis by (rule that)
  qed
  define s' where
    "s' = (if childrenMap (dropCache D sL) (itemId r) = None
           then (dropCache D sL)\<lparr>childrenMap :=
                  (childrenMap (dropCache D sL))(itemId r \<mapsto> [])\<rparr>
           else dropCache D sL)"
  have unfold: "addItem s r =
      (case parent r of
         None \<Rightarrow> Some ?s2
       | Some p \<Rightarrow>
           invalidateParentChainCache
             (?s2\<lparr>childrenMap := (childrenMap ?s2)(p \<mapsto> getChildren ?s2 p @ [r])\<rparr>) p)
      \<bind> (\<lambda>s3. Some (if childrenMap s3 (itemId r) = None
                         then s3\<lparr>childrenMap := (childrenMap s3)(itemId r \<mapsto> [])\<rparr>
                         else s3))"
    by (cases "parent r") (simp_all add: addItem_def Let_def)
  have run: "addItem s r = Some s'"
    by (simp only: unfold s3 bind.bind_lunit s'_def)
  have g': "getChildren s' q = getChildren sL q" for q
    by (simp add: s'_def getChildren_def dropCache_fields)
  have im: "itemsMap s' = ?m'"
    by (simp add: s'_def dropCache_fields sL_items)
  have links: "kidLinks s' = parentLinks ?m'"
    using sL_links by (simp add: kidLinks_def g')
  have d': "\<forall>p. distinct (map itemId (getChildren s' p))"
    using sL_dist by (simp add: g')
  have keyed': "\<forall>k x. ?m' k = Some x \<longrightarrow> itemId x = k"
    using keyed by auto
  have fin': "finite (dom ?m')" using fin by simp
  have "wellFormed s'"
    unfolding wellFormed_def childrenConsistent_def im
    using fin' keyed' links d' assms(3) by blast
  with run show ?thesis by blast
qed

lemma parentLinks_functional:
  assumes "(q, c) \<in> parentLinks m" and "(q', c) \<in> parentLinks m"
  shows "q = q'"
  using assms by (auto simp: parentLinks_def)

lemma wellFormed_removeItem:
  assumes "wellFormed s" and "getItem s k = Some item"
  shows "\<exists>s'. removeItem s k = Some (True, s') \<and> wellFormed s' \<and>
           (\<forall>j. itemsMap s' j = (if j \<in> (kidLinks s)\<^sup>* `` {k} then None else itemsMap s j)) \<and>
           (\<forall>j \<in> (kidLinks s)\<^sup>* `` {k}. getChildren s' j = [] \<and> parentChainCache s' j = None) \<and>
           (\<forall>p. parent item = Some p \<longrightarrow> k \<notin> itemId ` set (getChildren s' p))"
proof -
  let ?R = "(kidLinks s)\<^sup>* `` {k}"
  from assms(1) have fin: "finite (dom (itemsMap s))"
    and keyed: "\<forall>k x. itemsMap s k = Some x \<longrightarrow> itemId x = k"
    and K: "kidLinks s = parentLinks (itemsMap s)"
    and dist: "\<And>p. distinct (map itemId (getChildren s p))"
    and ac: "acyclic (parentLinks (itemsMap s))"
    by (simp_all add: wellFormed_def childrenConsistent_def)
  have m: "itemsMap s k = Some item" using assms(2) by (simp add: getItem_def)
  with keyed have key: "itemId item = k" by blast
  from removeItem_result[OF wellFormed_wf(1)[OF assms(1)] assms(2) key] obtain s' where
    run: "removeItem s k = Some (True, s')"
    and im: "\<And>j. itemsMap s' j = (if j \<in> ?R then None else itemsMap s j)"
    and ch: "\<And>q. getChildren s' q =
                  (if q \<in> ?R then []
                   else if parent item = Some q
                   then removeFirst (\<lambda>x. itemId x = k) (getChildren s q)
                   else getChildren s q)"
    and ca: "\<forall>j \<in> ?R. parentChainCache s' j = None"
    by blast
  have PL': "parentLinks (itemsMap s') = {(q, c). (q, c) \<in> parentLinks (itemsMap s) \<and> c \<notin> ?R}"
    by (auto simp: parentLinks_def im split: if_splits)
  have ids: "itemId ` set (getChildren s' q) =
      (if q \<in> ?R then {}
       else if parent item = Some q then itemId ` set (getChildren s q) - {k}
       else itemId ` set (getChildren s q))" for q
    using removeFirst_ids[OF dist, of k q] by (simp add: ch)
  have KL': "kidLinks s' =
      {(q, c). (q, c) \<in> kidLinks s \<and> q \<notin> ?R \<and> \<not> (parent item = Some q \<and> c = k)}"
    by (rule set_eqI, simp only: split_paired_all)
       (auto simp: kidLinks_def ids split: if_splits)
  have links: "kidLinks s' = parentLinks (itemsMap s')"
  proof (rule set_eqI, simp only: split_paired_all)
    fix q c
    show "(q, c) \<in> kidLinks s' \<longleftrightarrow> (q, c) \<in> parentLinks (itemsMap s')"
    proof
      assume "(q, c) \<in> kidLinks s'"
      with KL' have qc: "(q, c) \<in> kidLinks s" and q: "q \<notin> ?R"
        and nk: "\<not> (parent item = Some q \<and> c = k)" by auto
      have "c \<notin> ?R"
      proof
        assume "c \<in> ?R"
        then have "(k, c) \<in> (kidLinks s)\<^sup>*" by simp
        then show False
        proof (cases rule: rtranclE)
          case base
          with qc K parentLinks_at[where m = "itemsMap s" and k = k, OF m] nk
          show False by auto
        next
          case (step c')
          from step(2) qc K have "c' = q" by (auto intro: parentLinks_functional)
          with step(1) q show False by simp
        qed
      qed
      with qc K show "(q, c) \<in> parentLinks (itemsMap s')" by (simp add: PL')
    next
      assume "(q, c) \<in> parentLinks (itemsMap s')"
      with PL' K have qc: "(q, c) \<in> kidLinks s" and c: "c \<notin> ?R" by auto
      have "q \<notin> ?R"
      proof
        assume "q \<in> ?R"
        then have "(k, q) \<in> (kidLinks s)\<^sup>*" by simp
        with qc have "(k, c) \<in> (kidLinks s)\<^sup>*" by (auto intro: rtrancl_into_rtrancl)
        with c show False by simp
      qed
      moreover have "c \<noteq> k" using c by auto
      ultimately show "(q, c) \<in> kidLinks s'" using qc by (simp add: KL')
    qed
  qed
  have d': "\<forall>p. distinct (map itemId (getChildren s' p))"
    using dist removeFirst_distinct[OF dist] by (simp add: ch)
  have "dom (itemsMap s') \<subseteq> dom (itemsMap s)"
    by (auto simp: dom_def im split: if_splits)
  with fin have fin': "finite (dom (itemsMap s'))" by (rule rev_finite_subset)
  have keyed': "\<forall>j x. itemsMap s' j = Some x \<longrightarrow> itemId x = j"
    using keyed by (auto simp: im split: if_splits)
  have "parentLinks (itemsMap s') \<subseteq> parentLinks (itemsMap s)" using PL' by auto
  with ac have ac': "acyclic (parentLinks (itemsMap s'))" by (rule acyclic_subset)
  have wf': "wellFormed s'"
    unfolding wellFormed_def childrenConsistent_def
    using fin' keyed' links d' ac' by blast
  have gone: "\<forall>j \<in> ?R. getChildren s' j = [] \<and> parentChainCache s' j = None"
    using ca by (simp add: ch)
  have unlinked: "\<forall>p. parent item = Some p \<longrightarrow> k \<notin> itemId ` set (getChildren s' p)"
    by (auto simp: ids)
  from run wf' im gone unlinked show ?thesis by blast
qed

text \<open>Removing an id that is not stored reports \<^verbatim>\<open>false\<close> and changes nothing.\<close>

lemma removeItem_not_found:
  assumes "getItem s k = None"
  shows "removeItem s k = Some (False, s)"
  using assms by (simp add: removeItem_def)

text \<open>The stores of the two scenarios, evaluated.\<close>

lemma orphanQueried_eval:
  "getAllParents orphanStore (NumId 2) \<noteq> None"
  "items orphanQueried = [orphanItem]"
  "itemsMap orphanQueried = [NumId 2 \<mapsto> orphanItem]"
  "childrenMap orphanQueried = [NumId 2 \<mapsto> [], NumId 1 \<mapsto> [orphanItem]]"
  "parentChainCache orphanQueried = [NumId 2 \<mapsto> 0]"
  "arrays orphanQueried 0 = [orphanItem]"
  by (simp_all add: orphanQueried_def orphanStore_def orphanItem_def store_eval getAllParents_def
        newArray_def loop_eval)

lemma relabelled_eq:
  "relabelledStore =
     mockStore\<lparr>items := (items mockStore)[3 := treeItem 7 4 (Some 2) ''New Label Only''],
               itemsMap := (itemsMap mockStore)(NumId 4 \<mapsto> treeItem 7 4 (Some 2) ''New Label Only'')\<rparr>"
proof -
  have a: "getItem mockStore (itemId (treeItem 7 4 (Some 2) ''New Label Only''))
             = Some (treeItem 4 4 (Some 2) ''Grandchild 1'')"
    by (simp add: mockStore_def mockItems_def store_eval)
  have c: "indexOf (treeItem 4 4 (Some 2) ''Grandchild 1'') (items mockStore) = Some 3"
    by (simp add: mockStore_def mockItems_def store_eval indexOf_def)
  show ?thesis
    unfolding relabelledStore_def
    by (subst updateItem_same_parent[OF a]) (simp_all add: c)
qed

subsection \<open>Updates that close a cycle, and updates that do not\<close>

text \<open>An invalidation that meets a record listed under its own id does not return.\<close>

lemma invalidate_loop_self_child:
  assumes "x \<in> set cs" and "x \<in> set (getChildren s (itemId x))"
  shows "invalidate_loop s cs = None"
proof -
  let ?bad = "\<lambda>s cs. \<exists>x \<in> set cs. x \<in> set (getChildren s (itemId x))"
  let ?P = "\<lambda>s cs y. getChildren y = getChildren s \<and> \<not> ?bad s cs"
  have step: "?P s cs y"
    if ih: "\<And>s cs y. f s cs = Some y \<Longrightarrow> ?P s cs y"
    and eq: "(case cs of [] \<Rightarrow> Some s
              | child # rest \<Rightarrow>
                  f (s\<lparr>parentChainCache := (parentChainCache s)(itemId child := None)\<rparr>)
                    (getChildren s (itemId child)) \<bind> (\<lambda>s'. f s' rest)) = Some y"
    for f s cs y
  proof (cases cs)
    case Nil
    with eq show ?thesis by simp
  next
    case (Cons child rest)
    let ?s1 = "dropCache {itemId child} s"
    from eq Cons obtain s'' where a: "f ?s1 (getChildren s (itemId child)) = Some s''"
      and b: "f s'' rest = Some y"
      by (auto simp: bind_eq_Some_conv dropCache_single)
    from ih[OF a] have g1: "getChildren s'' = getChildren s"
      and n1: "\<not> ?bad ?s1 (getChildren s (itemId child))"
      by (simp_all add: getChildren_dropCache)
    from ih[OF b] g1 have g2: "getChildren y = getChildren s" and n2: "\<not> ?bad s rest"
      by simp_all
    from n1 have "child \<notin> set (getChildren s (itemId child))"
      by (auto simp: getChildren_dropCache)
    with n2 g2 Cons show ?thesis by auto
  qed
  have "?P s cs y" if "invalidate_loop s cs = Some y" for y
    by (rule invalidate_loop.raw_induct[where P = ?P, OF step that])
  with assms show ?thesis by (cases "invalidate_loop s cs") auto
qed

lemma invalidateParentChainCache_self_child:
  assumes "x \<in> set (getChildren s k)" and "itemId x = k"
  shows "invalidateParentChainCache s k = None"
proof -
  have "x \<in> set (getChildren (dropCache {k} s) (itemId x))"
    using assms by (simp add: getChildren_dropCache)
  from invalidate_loop_self_child[OF assms(1) this] show ?thesis
    by (simp add: invalidateParentChainCache_def invalidateParentChainCacheRecursive_def
          dropCache_single)
qed

text \<open>An update that makes a record its own parent does not return.\<close>

lemma updateItem_self_parent:
  assumes "getItem s (itemId u) = Some e" and "parent u \<noteq> parent e"
    and "parent u = Some (itemId u)"
  shows "updateItem s u = None"
proof -
  have "invalidateParentChainCache
          (s3\<lparr>childrenMap := (childrenMap s3)(itemId u \<mapsto> getChildren s3 (itemId u) @ [u])\<rparr>)
          (itemId u) = None" for s3
    by (rule invalidateParentChainCache_self_child[where x = u]) (simp_all add: getChildren_link)
  then show ?thesis
    unfolding updateItem_reparent_unfold[OF assms(1,2)]
    by (cases "(case parent e of
                         None \<Rightarrow> Some ((case indexOf e (items s) of
                                          None \<Rightarrow> s
                                        | Some index \<Rightarrow> s\<lparr>items := (items s)[index := u]\<rparr>)
                                       \<lparr>itemsMap := (itemsMap s)(itemId u \<mapsto> u)\<rparr>)
                       | Some op \<Rightarrow>
                           invalidateParentChainCache
                             (removeFromChildrenMap
                                ((case indexOf e (items s) of
                                    None \<Rightarrow> s
                                  | Some index \<Rightarrow> s\<lparr>items := (items s)[index := u]\<rparr>)
                                 \<lparr>itemsMap := (itemsMap s)(itemId u \<mapsto> u)\<rparr>)
                                op (itemId u)) op)")
       (simp_all add: assms(3))
qed

lemma wellFormed_mockStore: "wellFormed mockStore"
  unfolding mockStore_def
  by (rule wellFormed_update, simp add: mockItems_def,
      rule acyclic_by_rank[where f = depthRank])
     (auto simp: mockItems_def depthRank_def)

text \<open>Paths that start at a node of an acyclic relation use no link into that node.\<close>

lemma rtrancl_avoid_start:
  assumes "acyclic r" and "(a, b) \<in> r\<^sup>*"
  shows "(a, b) \<in> (r - {(q, c). c = a})\<^sup>*"
  using assms(2)
proof (induction rule: rtrancl_induct)
  case base
  show ?case by simp
next
  case (step y z)
  have "z \<noteq> a"
  proof
    assume "z = a"
    with step.hyps have "(a, a) \<in> r\<^sup>+" by (auto intro: rtrancl_into_trancl1)
    with assms(1) show False by (simp add: acyclic_def)
  qed
  with step.hyps(2) have "(y, z) \<in> r - {(q, c). c = a}" by simp
  with step.IH show ?case by (rule rtrancl_into_rtrancl)
qed

text \<open>
  Giving a record a parent that is neither the record nor below it keeps the parent links
  acyclic, and the records below it stay the same.
\<close>

lemma reparent_acyclic:
  assumes "acyclic (parentLinks m)"
    and "\<forall>np. parent u = Some np \<longrightarrow> (k, np) \<notin> (parentLinks m)\<^sup>*"
  shows "acyclic (parentLinks (m(k \<mapsto> u)))"
proof -
  let ?r = "parentLinks m - {(q, k'). k' = k}"
  have r: "acyclic ?r" by (rule acyclic_subset[OF assms(1)]) auto
  show ?thesis
  proof (cases "parent u")
    case None
    with r show ?thesis by (simp add: parentLinks_upd)
  next
    case (Some np)
    have "?r\<^sup>* \<subseteq> (parentLinks m)\<^sup>*" by (rule rtrancl_mono) auto
    with assms(2) Some have "(k, np) \<notin> ?r\<^sup>*" by auto
    with r have "acyclic (insert (np, k) ?r)" by (simp add: acyclic_insert)
    with Some show ?thesis by (simp add: parentLinks_upd)
  qed
qed

lemma reparent_descendants:
  assumes "acyclic (parentLinks m)" and "acyclic (parentLinks (m(k \<mapsto> u)))"
  shows "(k, d) \<in> (parentLinks (m(k \<mapsto> u)))\<^sup>* \<longleftrightarrow> (k, d) \<in> (parentLinks m)\<^sup>*"
proof -
  let ?r = "parentLinks m - {(q, k'). k' = k}"
  have same: "parentLinks (m(k \<mapsto> u)) - {(q, k'). k' = k} = ?r"
    by (auto simp: parentLinks_upd split: option.splits)
  have up: "?r\<^sup>* \<subseteq> (parentLinks m)\<^sup>*" by (rule rtrancl_mono) auto
  have up': "?r\<^sup>* \<subseteq> (parentLinks (m(k \<mapsto> u)))\<^sup>*"
    by (rule rtrancl_mono) (auto simp: parentLinks_upd)
  show ?thesis
  proof
    assume "(k, d) \<in> (parentLinks (m(k \<mapsto> u)))\<^sup>*"
    from rtrancl_avoid_start[OF assms(2) this] have "(k, d) \<in> ?r\<^sup>*" by (simp add: same)
    with up show "(k, d) \<in> (parentLinks m)\<^sup>*" by auto
  next
    assume "(k, d) \<in> (parentLinks m)\<^sup>*"
    from rtrancl_avoid_start[OF assms(1) this] have "(k, d) \<in> ?r\<^sup>*" .
    with up' show "(k, d) \<in> (parentLinks (m(k \<mapsto> u)))\<^sup>*" by auto
  qed
qed

text \<open>A query changes the cache and the arrays only.\<close>

lemma getAllParents_fields:
  assumes "getAllParents s k = Some (a, s')"
  shows "itemsMap s' = itemsMap s" and "childrenMap s' = childrenMap s" and "items s' = items s"
proof -
  have "itemsMap s' = itemsMap s \<and> childrenMap s' = childrenMap s \<and> items s' = items s"
  proof (cases "parentChainCache s k")
    case None
    with assms show ?thesis by (auto simp: getAllParents_miss)
  next
    case (Some c)
    with assms show ?thesis by (auto simp: getAllParents_hit)
  qed
  then show "itemsMap s' = itemsMap s" and "childrenMap s' = childrenMap s"
    and "items s' = items s" by simp_all
qed

lemma wellFormed_getAllParents:
  assumes "getAllParents s k = Some (a, s')" and "wellFormed s"
  shows "wellFormed s'"
proof -
  note f = getAllParents_fields[OF assms(1)]
  have "getChildren s' = getChildren s" by (simp add: getChildren_def fun_eq_iff f)
  then have "kidLinks s' = kidLinks s" by (simp add: kidLinks_def)
  with assms(2) \<open>getChildren s' = getChildren s\<close> show ?thesis
    by (simp add: wellFormed_def childrenConsistent_def f)
qed

lemma mockQueried_eval:
  "getAllParents mockStore (NumId 4) =
     Some (1, mockStore\<lparr>arrays := (arrays mockStore)
                 (0 := [treeItem 4 4 (Some 2) ''Grandchild 1'', treeItem 2 2 (Some 1) ''Child 1'',
                        treeItem 1 1 None ''Root''],
                  1 := [treeItem 4 4 (Some 2) ''Grandchild 1'', treeItem 2 2 (Some 1) ''Child 1'',
                        treeItem 1 1 None ''Root'']),
              fresh := 2,
              parentChainCache := [NumId 4 \<mapsto> 0]\<rparr>)"
proof -
  have c: "parentChainCache mockStore = Map.empty" and f: "fresh mockStore = 0"
    by (simp_all add: mockStore_def update_def buildIndexes_def Let_def newTreeStore_def
          fold_linkItem_cache fold_registerItem_cache)
  have l: "getAllParents_loop (itemsMap mockStore) (itemsMap mockStore (NumId 4)) [] =
     Some [treeItem 4 4 (Some 2) ''Grandchild 1'', treeItem 2 2 (Some 1) ''Child 1'',
           treeItem 1 1 None ''Root'']"
    by (simp add: mockStore_def mockItems_def store_eval loop_eval)
  show ?thesis
    by (subst getAllParents_miss) (simp_all add: c f l numeral_2_eq_2)
qed

subsection \<open>The descent within engine limits, and the walks on cycles\<close>

lemma getAllChildren_stack_sound:
  "getAllChildren_stack a f s cs acc = Some r \<Longrightarrow> getAllChildren_loop s cs acc = Some r"
proof (induction a f s cs acc arbitrary: r rule: getAllChildren_stack.induct)
  case (1 maxArgs frames s result)
  then show ?case by (simp add: getAllChildren_loop_Nil)
next
  case (2 maxArgs s child rest result)
  then show ?case by simp
next
  case (3 maxArgs frames s child rest result)
  from "3.prems" obtain cd where
    a: "getAllChildren_stack maxArgs frames s (getChildren s (itemId child)) [] = Some cd"
    and le: "\<not> maxArgs < length cd"
    and b: "getAllChildren_stack maxArgs (Suc frames) s rest (result @ [child] @ cd) = Some r"
    by (auto split: option.splits if_splits)
  from "3.IH"(1)[OF a] "3.IH"(2)[OF a le b] show ?case
    by (simp add: getAllChildren_loop_Cons)
qed

lemma getAllChildren_limited_sound:
  "getAllChildren_limited a f s k = Some ds \<Longrightarrow> getAllChildren s k = Some ds"
  by (auto simp: getAllChildren_limited_def getAllChildren_def
        split: nat.splits intro: getAllChildren_stack_sound)

lemma getAllChildren_stack_complete:
  assumes "getAllChildren_loop s cs acc = Some r"
  shows "length acc \<le> length r \<and>
         (\<exists>F. \<forall>f \<ge> F. \<forall>a \<ge> length r. getAllChildren_stack a f s cs acc = Some r)"
proof -
  let ?P = "\<lambda>s cs acc r. length acc \<le> length r \<and>
         (\<exists>F. \<forall>f \<ge> F. \<forall>a \<ge> length r. getAllChildren_stack a f s cs acc = Some r)"
  have step: "?P s cs acc r"
    if ih: "\<And>s cs acc r. g s cs acc = Some r \<Longrightarrow> ?P s cs acc r"
    and eq: "(case cs of [] \<Rightarrow> Some acc
             | child # rest \<Rightarrow>
                 g s (getChildren s (itemId child)) [] \<bind>
                 (\<lambda>childDescendants. g s rest (acc @ [child] @ childDescendants))) = Some r"
    for g s cs acc r
  proof (cases cs)
    case Nil
    with eq show ?thesis by simp
  next
    case (Cons child rest)
    from eq Cons obtain cd where a: "g s (getChildren s (itemId child)) [] = Some cd"
      and b: "g s rest (acc @ [child] @ cd) = Some r"
      by (auto simp: bind_eq_Some_conv)
    from ih[OF a] obtain F1 where
      1: "\<And>f a. F1 \<le> f \<Longrightarrow> length cd \<le> a \<Longrightarrow>
            getAllChildren_stack a f s (getChildren s (itemId child)) [] = Some cd"
      by blast
    from ih[OF b] obtain F2 where len: "length (acc @ [child] @ cd) \<le> length r"
      and 2: "\<And>f a. F2 \<le> f \<Longrightarrow> length r \<le> a \<Longrightarrow>
            getAllChildren_stack a f s rest (acc @ [child] @ cd) = Some r"
      by blast
    have "getAllChildren_stack a f s (child # rest) acc = Some r"
      if f: "max (Suc F1) F2 \<le> f" and a: "length r \<le> a" for f a
    proof -
      from f obtain f' where f': "f = Suc f'" and "F1 \<le> f'" by (cases f) auto
      from len a have "length cd \<le> a" by simp
      with 1[OF \<open>F1 \<le> f'\<close>] have
        "getAllChildren_stack a f' s (getChildren s (itemId child)) [] = Some cd" by simp
      moreover from f a have "getAllChildren_stack a f s rest (acc @ [child] @ cd) = Some r"
        by (intro 2) simp_all
      ultimately show ?thesis using \<open>length cd \<le> a\<close> by (simp add: f')
    qed
    then have "\<exists>F. \<forall>f \<ge> F. \<forall>a \<ge> length r.
                 getAllChildren_stack a f s (child # rest) acc = Some r"
      by (intro exI[of _ "max (Suc F1) F2"]) simp
    with len Cons show ?thesis by simp
  qed
  show ?thesis by (rule getAllChildren_loop.raw_induct[where P = ?P, OF step assms])
qed

lemma getAllChildren_limited_complete:
  assumes "getAllChildren s k = Some ds"
  shows "\<exists>F. \<forall>frames \<ge> F. \<forall>maxArgs \<ge> length ds.
           getAllChildren_limited maxArgs frames s k = Some ds"
proof -
  from getAllChildren_stack_complete[OF assms[unfolded getAllChildren_def]] obtain F where
    F: "\<And>f a. F \<le> f \<Longrightarrow> length ds \<le> a \<Longrightarrow>
          getAllChildren_stack a f s (getChildren s k) [] = Some ds"
    by blast
  have "getAllChildren_limited a f s k = Some ds" if "Suc F \<le> f" and "length ds \<le> a" for f a
    using that F by (cases f) (simp_all add: getAllChildren_limited_def)
  then show ?thesis by blast
qed

text \<open>The ancestor walk does not return from a record on a cycle of parent links.\<close>

lemma getAllParents_loop_cycle:
  assumes "getAllParents_loop m (m k) acc = Some y"
  shows "(k, k) \<notin> (parentLinks m)\<^sup>+"
proof -
  let ?P = "\<lambda>m cur (acc :: ITreeItem list) (y :: ITreeItem list).
              \<forall>k. cur = m k \<longrightarrow> (k, k) \<notin> (parentLinks m)\<^sup>+"
  have step: "?P m cur acc y"
    if ih: "\<And>m cur acc y. f m cur acc = Some y \<Longrightarrow> ?P m cur acc y"
    and eq: "(case cur of None \<Rightarrow> Some acc
             | Some item \<Rightarrow>
                 (case parent item of None \<Rightarrow> Some (acc @ [item])
                  | Some p \<Rightarrow> f m (m p) (acc @ [item]))) = Some y"
    for f m cur acc y
  proof (intro allI impI notI)
    fix k assume cur: "cur = m k" and cyc: "(k, k) \<in> (parentLinks m)\<^sup>+"
    from tranclD2[OF cyc] obtain q where kq: "(k, q) \<in> (parentLinks m)\<^sup>*"
      and qk: "(q, k) \<in> parentLinks m" by blast
    from qk obtain x where x: "m k = Some x" "parent x = Some q"
      by (auto simp: parentLinks_def)
    with eq cur have "f m (m q) (acc @ [x]) = Some y" by simp
    from ih[OF this] have "(q, q) \<notin> (parentLinks m)\<^sup>+" by simp
    moreover from qk kq have "(q, q) \<in> (parentLinks m)\<^sup>+" by (rule rtrancl_into_trancl2)
    ultimately show False ..
  qed
  have "?P m (m k) acc y"
    by (rule getAllParents_loop.raw_induct[where P = ?P, OF step assms])
  then show ?thesis by simp
qed

lemma getAllParents_cycle:
  assumes "(k, k) \<in> (parentLinks (itemsMap s))\<^sup>+" and "parentChainCache s k = None"
  shows "getAllParents s k = None"
proof -
  have "getAllParents_loop (itemsMap s) (itemsMap s k) [] = None"
    using getAllParents_loop_cycle[of "itemsMap s" k "[]"] assms(1)
    by (cases "getAllParents_loop (itemsMap s) (itemsMap s k) []") auto
  then show ?thesis by (simp add: getAllParents_miss[OF assms(2)])
qed

text \<open>The descent does not return from an id that reaches a cycle of the children index.\<close>

lemma getAllChildren_loop_cycle:
  assumes "getAllChildren_loop s cs acc = Some r"
  shows "\<forall>c \<in> set cs. \<forall>d. (itemId c, d) \<in> (kidLinks s)\<^sup>* \<longrightarrow> (d, d) \<notin> (kidLinks s)\<^sup>+"
proof -
  let ?P = "\<lambda>s cs (acc :: ITreeItem list) (r :: ITreeItem list).
     \<forall>c \<in> set cs. \<forall>d. (itemId c, d) \<in> (kidLinks s)\<^sup>* \<longrightarrow> (d, d) \<notin> (kidLinks s)\<^sup>+"
  have step: "?P s cs acc r"
    if ih: "\<And>s cs acc r. g s cs acc = Some r \<Longrightarrow> ?P s cs acc r"
    and eq: "(case cs of [] \<Rightarrow> Some acc
             | child # rest \<Rightarrow>
                 g s (getChildren s (itemId child)) [] \<bind>
                 (\<lambda>childDescendants. g s rest (acc @ [child] @ childDescendants))) = Some r"
    for g s cs acc r
  proof (cases cs)
    case Nil
    then show ?thesis by simp
  next
    case (Cons child rest)
    from eq Cons obtain cd where a: "g s (getChildren s (itemId child)) [] = Some cd"
      and b: "g s rest (acc @ [child] @ cd) = Some r"
      by (auto simp: bind_eq_Some_conv)
    note below = ih[OF a, rule_format]
    have kid: "\<exists>c \<in> set (getChildren s (itemId child)). z = itemId c"
      if "(itemId child, z) \<in> kidLinks s" for z
      using that by (auto simp: kidLinks_def)
    have self: "(itemId child, itemId child) \<notin> (kidLinks s)\<^sup>+"
    proof
      assume "(itemId child, itemId child) \<in> (kidLinks s)\<^sup>+"
      from tranclD[OF this] obtain z where z: "(itemId child, z) \<in> kidLinks s"
        and ret: "(z, itemId child) \<in> (kidLinks s)\<^sup>*" by blast
      from kid[OF z] obtain c where c: "c \<in> set (getChildren s (itemId child))" "z = itemId c"
        by blast
      from below[OF c(1), of "itemId child"] ret c(2)
      have "(itemId child, itemId child) \<notin> (kidLinks s)\<^sup>+" by simp
      with \<open>(itemId child, itemId child) \<in> (kidLinks s)\<^sup>+\<close> show False by simp
    qed
    have "(d, d) \<notin> (kidLinks s)\<^sup>+" if "(itemId child, d) \<in> (kidLinks s)\<^sup>*" for d
    proof (cases "d = itemId child")
      case True
      with self show ?thesis by simp
    next
      case False
      with that have "(itemId child, d) \<in> (kidLinks s)\<^sup>+" by (auto simp: rtrancl_eq_or_trancl)
      from tranclD[OF this] obtain z where z: "(itemId child, z) \<in> kidLinks s"
        and on: "(z, d) \<in> (kidLinks s)\<^sup>*" by blast
      from kid[OF z] obtain c where c: "c \<in> set (getChildren s (itemId child))" "z = itemId c"
        by blast
      from below[OF c(1), of d] on c(2) show ?thesis by simp
    qed
    with ih[OF b] Cons show ?thesis by auto
  qed
  show ?thesis by (rule getAllChildren_loop.raw_induct[where P = ?P, OF step assms])
qed

lemma getAllChildren_cycle:
  assumes "(k, k) \<in> (kidLinks s)\<^sup>+"
  shows "getAllChildren s k = None"
proof (cases "getAllChildren s k")
  case None
  then show ?thesis .
next
  case (Some ds)
  then have run: "getAllChildren_loop s (getChildren s k) [] = Some ds"
    by (simp add: getAllChildren_def)
  from tranclD[OF assms] obtain z where z: "(k, z) \<in> kidLinks s"
    and ret: "(z, k) \<in> (kidLinks s)\<^sup>*" by blast
  from z obtain c where c: "c \<in> set (getChildren s k)" "z = itemId c"
    by (auto simp: kidLinks_def)
  from getAllChildren_loop_cycle[OF run, rule_format, OF c(1), of k] ret c(2)
  have "(k, k) \<notin> (kidLinks s)\<^sup>+" by simp
  with assms show ?thesis by simp
qed

lemma getAllChildren_limited_cycle:
  assumes "(k, k) \<in> (kidLinks s)\<^sup>+"
  shows "getAllChildren_limited maxArgs frames s k = None"
  using getAllChildren_cycle[OF assms] getAllChildren_limited_sound[of maxArgs frames s k]
  by (cases "getAllChildren_limited maxArgs frames s k") auto

section \<open>Claims\<close>

text \<open>
  Claim C1, as the code has it. \<^verbatim>\<open>addItem\<close> has no check for an identifier that is already
  stored and no failure result. For a record whose id is present, in a store whose
  children index has no infinite descent and where the new link closes no cycle, the call
  returns: the record has been appended to the canonical sequence, next to the entries
  already there, and the id index entry is the new record.
\<close>

theorem addItem_existing_id:
  assumes "getItem s (itemId r) = Some e"
    and "wf ((kidLinks s)\<inverse>)"
    and "\<forall>p. parent r = Some p \<longrightarrow> (itemId r, p) \<notin> (kidLinks s)\<^sup>*"
  shows "\<exists>s'. addItem s r = Some s' \<and>
           items s' = items s @ [r] \<and>
           getItem s' (itemId r) = Some r"
proof -
  from addItem_terminates[OF assms(2,3)] obtain s' where a: "addItem s r = Some s'" by blast
  from addItem_fields(1,2)[OF a] a show ?thesis by (simp add: getItem_def)
qed

theorem addItem_existing_id_witness:
  "\<exists>s'. addItem pairStore (treeItem 3 2 (Some 1) ''Again'') = Some s' \<and>
     items s' = [treeItem 1 1 None ''Root'', treeItem 2 2 (Some 1) ''Child'',
                 treeItem 3 2 (Some 1) ''Again''] \<and>
     getItem s' (NumId 2) = Some (treeItem 3 2 (Some 1) ''Again'')"
proof -
  have a: "getItem pairStore (itemId (treeItem 3 2 (Some 1) ''Again''))
             = Some (treeItem 2 2 (Some 1) ''Child'')"
    by (simp add: pairStore_def store_eval)
  have c: "\<forall>p. parent (treeItem 3 2 (Some 1) ''Again'') = Some p \<longrightarrow>
             (itemId (treeItem 3 2 (Some 1) ''Again''), p) \<notin> (kidLinks pairStore)\<^sup>*"
    by (auto simp: kidLinks_pairStore elim: converse_rtranclE)
  have i: "items pairStore = [treeItem 1 1 None ''Root'', treeItem 2 2 (Some 1) ''Child'']"
    by (simp add: pairStore_def store_eval)
  from addItem_existing_id[OF a wf_kidLinks_pairStore c] i show ?thesis
    by simp
qed

text \<open>
  Claim C1 as stated fails: inserting a second object with the id of the stored root
  returns normally, leaves two entries with that id in the canonical sequence and
  replaces the id index entry.
\<close>

theorem addItem_duplicate_counterexample:
  "getItem oneRootStore (itemId sameIdItem) = Some (treeItem 1 1 None ''Root'') \<and>
   addItem oneRootStore sameIdItem \<noteq> None \<and>
   items (the (addItem oneRootStore sameIdItem)) = [treeItem 1 1 None ''Root'', sameIdItem] \<and>
   getItem (the (addItem oneRootStore sameIdItem)) (itemId sameIdItem) = Some sameIdItem"
  by (simp add: addItem_def oneRootStore_def sameIdItem_def store_eval)

text \<open>
  Claim C2 fails on the code. The orphan (id 2, parent 1) is stored alone and its chain is
  asked for, which caches the chain of one element. The missing parent (id 1, a root) is
  then inserted: ids are unique and the links acyclic. \<^verbatim>\<open>addItem\<close> invalidates nothing for
  a root record, so the next \<^verbatim>\<open>getAllParents(2)\<close> is served from the cache: the chain of
  one element, while the chain from the record to its furthest reachable ancestor has
  two. This evaluates the code there.
\<close>

theorem stale_chain_after_addItem:
  "getAllParents orphanStore (NumId 2) \<noteq> None \<and>
   addItem orphanQueried lateRoot \<noteq> None \<and>
   getItem orphanAdopted (NumId 1) = Some lateRoot \<and>
   getItem orphanAdopted (NumId 2) = Some orphanItem \<and>
   parent orphanItem = Some (NumId 1) \<and>
   getAllParents orphanAdopted (NumId 2) \<noteq> None \<and>
   arrays (snd (the (getAllParents orphanAdopted (NumId 2))))
          (fst (the (getAllParents orphanAdopted (NumId 2)))) = [orphanItem] \<and>
   ancestorChain (itemsMap orphanAdopted) (NumId 2) [orphanItem, lateRoot]"
proof -
  have a: "addItem orphanQueried lateRoot =
             Some (orphanQueried\<lparr>items := [orphanItem, lateRoot],
                                 itemsMap := [NumId 2 \<mapsto> orphanItem, NumId 1 \<mapsto> lateRoot]\<rparr>)"
    by (simp add: addItem_def orphanQueried_eval lateRoot_def Let_def)
  then have s: "orphanAdopted = orphanQueried\<lparr>items := [orphanItem, lateRoot],
                                 itemsMap := [NumId 2 \<mapsto> orphanItem, NumId 1 \<mapsto> lateRoot]\<rparr>"
    by (simp add: orphanAdopted_def)
  have g: "getAllParents orphanAdopted (NumId 2) =
          Some (newArray [orphanItem] orphanAdopted)"
    by (simp add: getAllParents_def s orphanQueried_eval)
  have c: "ancestorChain (itemsMap orphanAdopted) (NumId 2) [orphanItem, lateRoot]"
    by (rule ancestorChain.step[where p = "NumId 1"], simp add: s, simp add: orphanItem_def,
        rule ancestorChain.root)
       (simp_all add: s lateRoot_def)
  show ?thesis
    using a orphanQueried_eval(1) c
    by (simp add: g newArray_def) (simp add: s getItem_def lateRoot_def orphanItem_def)
qed

text \<open>
  Claim C3, as the code has it. \<^verbatim>\<open>updateItem\<close> checks nothing about the new parent.
  In a well-formed store (finitely many records, each stored under its own id, a children
  index that agrees with the id index, acyclic parent links), an update that changes the
  parent of a stored record to \<^verbatim>\<open>null\<close> or to an id that is neither the record's own nor
  that of one of its descendants returns \<^verbatim>\<open>true\<close>. Afterwards the id index is the old one
  with the new object under the record's id, the children list of the new parent holds the
  new object, the children list of the old parent holds no object with that id, and for
  the record and every descendant of it \<^verbatim>\<open>getAllParents\<close> returns the ancestor chain of
  the updated id index, whatever the cache held before. The store is well-formed again.
\<close>

theorem updateItem_reparent_coherent:
  assumes "wellFormed s"
    and "getItem s (itemId u) = Some e"
    and "parent u \<noteq> parent e"
    and "\<forall>np. parent u = Some np \<longrightarrow> (itemId u, np) \<notin> (parentLinks (itemsMap s))\<^sup>*"
  shows "\<exists>s'. updateItem s u = Some (True, s') \<and>
           itemsMap s' = (itemsMap s)(itemId u \<mapsto> u) \<and>
           (\<forall>np. parent u = Some np \<longrightarrow> u \<in> set (getChildren s' np)) \<and>
           (\<forall>op. parent e = Some op \<longrightarrow> itemId u \<notin> itemId ` set (getChildren s' op)) \<and>
           (\<forall>d. (itemId u, d) \<in> (parentLinks (itemsMap s))\<^sup>* \<longrightarrow>
                (\<exists>a s'' chain. getAllParents s' d = Some (a, s'') \<and> arrays s'' a = chain \<and>
                                ancestorChain (itemsMap s') d chain)) \<and>
           wellFormed s'"
proof -
  from assms(1) have fin: "finite (dom (itemsMap s))" and cons: "childrenConsistent s"
    and keyed: "\<forall>k x. itemsMap s k = Some x \<longrightarrow> itemId x = k"
    and ac: "acyclic (parentLinks (itemsMap s))"
    by (simp_all add: wellFormed_def)
  have ac': "acyclic (parentLinks ((itemsMap s)(itemId u \<mapsto> u)))"
    using ac assms(4) by (rule reparent_acyclic)
  from updateItem_reparent_state[OF fin cons assms(2,3) ac'] obtain s' where
    run: "updateItem s u = Some (True, s')"
    and im: "itemsMap s' = (itemsMap s)(itemId u \<mapsto> u)"
    and links: "kidLinks s' = parentLinks (itemsMap s')"
    and dist: "\<forall>p. distinct (map itemId (getChildren s' p))"
    and new: "\<forall>np. parent u = Some np \<longrightarrow> u \<in> set (getChildren s' np)"
    and cache: "\<forall>d. (itemId u, d) \<in> (parentLinks (itemsMap s'))\<^sup>* \<longrightarrow> parentChainCache s' d = None"
    by blast
  have at: "itemsMap s' (itemId u) = Some u" by (simp add: im)
  have old: "\<forall>op. parent e = Some op \<longrightarrow> itemId u \<notin> itemId ` set (getChildren s' op)"
  proof (intro allI impI)
    fix op assume "parent e = Some op"
    with assms(3) have "parent u \<noteq> Some op" by simp
    with parentLinks_at[where m = "itemsMap s'" and k = "itemId u", OF at]
    have "(op, itemId u) \<notin> kidLinks s'" by (simp add: links)
    then show "itemId u \<notin> itemId ` set (getChildren s' op)" by (simp add: kidLinks_def)
  qed
  have "finite (parentLinks (itemsMap s'))"
    by (rule finite_parentLinks) (simp add: im fin)
  then have wfu: "wf (parentLinks (itemsMap s'))"
    using ac' by (intro finite_acyclic_wf) (simp_all add: im)
  have chains: "\<forall>d. (itemId u, d) \<in> (parentLinks (itemsMap s))\<^sup>* \<longrightarrow>
                (\<exists>a s'' chain. getAllParents s' d = Some (a, s'') \<and> arrays s'' a = chain \<and>
                                ancestorChain (itemsMap s') d chain)"
  proof (intro allI impI)
    fix d assume "(itemId u, d) \<in> (parentLinks (itemsMap s))\<^sup>*"
    then have "(itemId u, d) \<in> (parentLinks (itemsMap s'))\<^sup>*"
      by (simp add: im reparent_descendants[OF ac ac'])
    with cache have miss: "parentChainCache s' d = None" by blast
    from ancestorChain_exists[OF wfu, of d] obtain chain where
      c: "ancestorChain (itemsMap s') d chain" ..
    from getAllParents_miss_chain[OF miss c] c
    show "\<exists>a s'' chain. getAllParents s' d = Some (a, s'') \<and> arrays s'' a = chain \<and>
                                ancestorChain (itemsMap s') d chain"
      by blast
  qed
  have "wellFormed s'"
    using fin keyed ac' links dist
    by (simp add: wellFormed_def childrenConsistent_def im)
  with run im new old chains show ?thesis by blast
qed

theorem updateItem_reparent_coherent_witness:
  "wellFormed mockQueried \<and>
   (\<exists>c. parentChainCache mockQueried (NumId 4) = Some c \<and>
        arrays mockQueried c =
          [treeItem 4 4 (Some 2) ''Grandchild 1'', treeItem 2 2 (Some 1) ''Child 1'',
           treeItem 1 1 None ''Root'']) \<and>
   (\<exists>s' a s''.
     updateItem mockQueried (treeItem 7 2 (Some 3) ''Child 1'') = Some (True, s') \<and>
     treeItem 7 2 (Some 3) ''Child 1'' \<in> set (getChildren s' (NumId 3)) \<and>
     NumId 2 \<notin> itemId ` set (getChildren s' (NumId 1)) \<and>
     getAllParents s' (NumId 4) = Some (a, s'') \<and>
     arrays s'' a =
       [treeItem 4 4 (Some 2) ''Grandchild 1'', treeItem 7 2 (Some 3) ''Child 1'',
        treeItem 3 3 (Some 1) ''Child 2'', treeItem 1 1 None ''Root''])"
proof -
  let ?u = "treeItem 7 2 (Some 3) ''Child 1''"
  let ?e = "treeItem 2 2 (Some 1) ''Child 1''"
  let ?m' = "(itemsMap mockStore)(NumId 2 \<mapsto> ?u)"
  have q: "getAllParents mockStore (NumId 4) = Some (1, mockQueried)"
    by (simp add: mockQueried_def mockQueried_eval)
  have wf: "wellFormed mockQueried"
    by (rule wellFormed_getAllParents[OF q wellFormed_mockStore])
  have im0: "itemsMap mockQueried = itemsMap mockStore"
    by (rule getAllParents_fields[OF q])
  have cached: "\<exists>c. parentChainCache mockQueried (NumId 4) = Some c \<and>
        arrays mockQueried c =
          [treeItem 4 4 (Some 2) ''Grandchild 1'', treeItem 2 2 (Some 1) ''Child 1'',
           treeItem 1 1 None ''Root'']"
    by (simp add: mockQueried_def mockQueried_eval)
  have ex: "getItem mockQueried (itemId ?u) = Some ?e"
    by (simp add: getItem_def im0) (simp add: mockStore_def mockItems_def store_eval)
  have changed: "parent ?u \<noteq> parent ?e" by simp
  have below: "x \<in> {NumId 2, NumId 4, NumId 5}"
    if "(NumId 2, x) \<in> (parentLinks (itemsMap mockStore))\<^sup>*" for x
    using that by (induction rule: rtrancl_induct) (auto simp: parentLinks_mockStore)
  have away: "\<forall>np. parent ?u = Some np \<longrightarrow>
                (itemId ?u, np) \<notin> (parentLinks (itemsMap mockQueried))\<^sup>*"
    using below[of "NumId 3"] by (auto simp: im0)
  have "(NumId 2, NumId 4) \<in> parentLinks (itemsMap mockStore)"
    by (simp add: parentLinks_mockStore)
  then have d4: "(itemId ?u, NumId 4) \<in> (parentLinks (itemsMap mockQueried))\<^sup>*"
    by (auto simp: im0)
  from updateItem_reparent_coherent[OF wf ex changed away]
  obtain s' where run: "updateItem mockQueried ?u = Some (True, s')"
    and m': "itemsMap s' = ?m'"
    and new: "?u \<in> set (getChildren s' (NumId 3))"
    and old: "NumId 2 \<notin> itemId ` set (getChildren s' (NumId 1))"
    and chains: "\<forall>d. (itemId ?u, d) \<in> (parentLinks (itemsMap mockQueried))\<^sup>* \<longrightarrow>
                (\<exists>a s'' chain. getAllParents s' d = Some (a, s'') \<and> arrays s'' a = chain \<and>
                                ancestorChain (itemsMap s') d chain)"
    by (auto simp: im0)
  from chains d4 obtain a s'' chain where g: "getAllParents s' (NumId 4) = Some (a, s'')"
    and ar: "arrays s'' a = chain" and c: "ancestorChain (itemsMap s') (NumId 4) chain"
    by blast
  have "ancestorChain ?m' (NumId 4)
          [treeItem 4 4 (Some 2) ''Grandchild 1'', ?u,
           treeItem 3 3 (Some 1) ''Child 2'', treeItem 1 1 None ''Root'']"
    by (rule ancestorChain.step[where p = "NumId 2"], simp add: mockStore_def mockItems_def store_eval, simp,
        rule ancestorChain.step[where p = "NumId 3"], simp, simp,
        rule ancestorChain.step[where p = "NumId 1"], simp add: mockStore_def mockItems_def store_eval, simp,
        rule ancestorChain.root)
       (simp_all add: mockStore_def mockItems_def store_eval)
  with c have "chain = [treeItem 4 4 (Some 2) ''Grandchild 1'', ?u,
           treeItem 3 3 (Some 1) ''Child 2'', treeItem 1 1 None ''Root'']"
    by (simp add: m' ancestorChain_unique)
  with run new old g ar have "\<exists>s' a s''.
     updateItem mockQueried ?u = Some (True, s') \<and>
     ?u \<in> set (getChildren s' (NumId 3)) \<and>
     NumId 2 \<notin> itemId ` set (getChildren s' (NumId 1)) \<and>
     getAllParents s' (NumId 4) = Some (a, s'') \<and>
     arrays s'' a =
       [treeItem 4 4 (Some 2) ''Grandchild 1'', ?u,
        treeItem 3 3 (Some 1) ''Child 2'', treeItem 1 1 None ''Root'']"
    by blast
  with wf cached show ?thesis by blast
qed

text \<open>
  Claim C3 as stated fails: the test store has unique ids and acyclic parent links, and
  the update that makes record 4 its own parent changes the parent of a stored record.
  The call puts the new object into the children list of id 4 and then invalidates below
  id 4, a recursion that meets the same id again at every level and does not return.
\<close>

theorem updateItem_self_parent_counterexample:
  "wellFormed mockStore \<and>
   getItem mockStore (NumId 4) = Some (treeItem 4 4 (Some 2) ''Grandchild 1'') \<and>
   updateItem mockStore (treeItem 7 4 (Some 4) ''Grandchild 1'') = None"
proof -
  have ex: "getItem mockStore (itemId (treeItem 7 4 (Some 4) ''Grandchild 1'')) =
              Some (treeItem 4 4 (Some 2) ''Grandchild 1'')"
    by (simp add: mockStore_def mockItems_def store_eval)
  have "updateItem mockStore (treeItem 7 4 (Some 4) ''Grandchild 1'') = None"
    by (rule updateItem_self_parent[OF ex]) simp_all
  with ex wellFormed_mockStore show ?thesis by simp
qed

text \<open>
  Claim C4 fails on the code. In the test store the label of record 4 is updated (parent
  unchanged), then record 2, the parent of 4, is removed. The descendants to remove come
  from the children index, which still holds the old object of record 4;
  \<^verbatim>\<open>this.items.indexOf\<close> does not find that object in the canonical sequence, which holds
  the new one, so record 4 stays in the sequence although it has left the id index.
\<close>

theorem removeItem_keeps_relabelled_descendant:
  "updateItem mockStore (treeItem 7 4 (Some 2) ''New Label Only'') \<noteq> None \<and>
   removeItem relabelledStore (NumId 2) \<noteq> None \<and>
   fst (the (removeItem relabelledStore (NumId 2))) = True \<and>
   getAll (snd (the (removeItem relabelledStore (NumId 2)))) =
     [treeItem 1 1 None ''Root'', treeItem 3 3 (Some 1) ''Child 2'',
      treeItem 7 4 (Some 2) ''New Label Only'', treeItem 6 6 (Some 3) ''Grandchild 3''] \<and>
   getItem (snd (the (removeItem relabelledStore (NumId 2)))) (NumId 4) = None"
proof -
  have u: "updateItem mockStore (treeItem 7 4 (Some 2) ''New Label Only'') \<noteq> None"
    by (subst updateItem_same_parent[where e = "treeItem 4 4 (Some 2) ''Grandchild 1''"])
       (simp_all add: mockStore_def mockItems_def store_eval)
  have r: "removeItem relabelledStore (NumId 2) \<noteq> None \<and>
   fst (the (removeItem relabelledStore (NumId 2))) = True \<and>
   getAll (snd (the (removeItem relabelledStore (NumId 2)))) =
     [treeItem 1 1 None ''Root'', treeItem 3 3 (Some 1) ''Child 2'',
      treeItem 7 4 (Some 2) ''New Label Only'', treeItem 6 6 (Some 3) ''Grandchild 3''] \<and>
   getItem (snd (the (removeItem relabelledStore (NumId 2)))) (NumId 4) = None"
    by (simp add: removeItem_def relabelled_eq mockStore_def mockItems_def store_eval loop_eval
          getAllChildren_def removeOne_def indexOf_def splice1_def removeFromChildrenMap_def
          invalidateParentChainCache_def invalidateParentChainCacheRecursive_def getAll_def
          Let_def)
  from u r show ?thesis by simp
qed

text \<open>
  Claim C5, as the code has it. The store bounds no walk and guards no descent with a
  visited set. On a store with finitely many records and acyclic parent links
  \<^verbatim>\<open>getAllParents\<close>, a loop, returns. \<^verbatim>\<open>getAllChildren\<close>, a recursion, returns there (the
  children index holding only parent links of stored records) once the call stack is deep
  enough, with an argument limit of at least the number of descendants. From a record on a
  cycle of parent links \<^verbatim>\<open>getAllParents\<close> does not return on a cache miss, and from an id
  on a cycle of the children index \<^verbatim>\<open>getAllChildren\<close> does not return, whatever the
  limits.
\<close>

theorem queries_termination:
  "(finite (dom (itemsMap s)) \<and> acyclic (parentLinks (itemsMap s)) \<longrightarrow>
      (\<exists>r. getAllParents s k = Some r)) \<and>
   (finite (dom (itemsMap s)) \<and> acyclic (parentLinks (itemsMap s)) \<and>
    kidLinks s \<subseteq> parentLinks (itemsMap s) \<longrightarrow>
      (\<exists>ds F. \<forall>frames \<ge> F. \<forall>maxArgs \<ge> length ds.
          getAllChildren_limited maxArgs frames s k = Some ds)) \<and>
   ((k, k) \<in> (parentLinks (itemsMap s))\<^sup>+ \<and> parentChainCache s k = None \<longrightarrow>
      getAllParents s k = None) \<and>
   ((k, k) \<in> (kidLinks s)\<^sup>+ \<longrightarrow>
      (\<forall>maxArgs frames. getAllChildren_limited maxArgs frames s k = None))"
proof (intro conjI impI)
  assume a: "finite (dom (itemsMap s)) \<and> acyclic (parentLinks (itemsMap s))"
  then have "finite (parentLinks (itemsMap s))" by (simp add: finite_parentLinks)
  with a have "wf (parentLinks (itemsMap s))" by (simp add: finite_acyclic_wf)
  then show "\<exists>r. getAllParents s k = Some r" by (rule getAllParents_returns)
next
  assume a: "finite (dom (itemsMap s)) \<and> acyclic (parentLinks (itemsMap s)) \<and>
             kidLinks s \<subseteq> parentLinks (itemsMap s)"
  then have fin: "finite (parentLinks (itemsMap s))" by (simp add: finite_parentLinks)
  from a have ac: "acyclic (parentLinks (itemsMap s))" by simp
  have "wf ((parentLinks (itemsMap s))\<inverse>)"
    using fin ac by (rule finite_acyclic_wf_converse)
  moreover have "(kidLinks s)\<inverse> \<subseteq> (parentLinks (itemsMap s))\<inverse>"
    using a by auto
  ultimately have "wf ((kidLinks s)\<inverse>)" by (rule wf_subset)
  from getAllChildren_loop_terminates[OF this, of k] obtain ds where
    "getAllChildren s k = Some ds"
    by (auto simp: getAllChildren_def)
  from getAllChildren_limited_complete[OF this]
  show "\<exists>ds F. \<forall>frames \<ge> F. \<forall>maxArgs \<ge> length ds.
          getAllChildren_limited maxArgs frames s k = Some ds"
    by blast
next
  assume "(k, k) \<in> (parentLinks (itemsMap s))\<^sup>+ \<and> parentChainCache s k = None"
  then show "getAllParents s k = None" by (simp add: getAllParents_cycle)
next
  assume "(k, k) \<in> (kidLinks s)\<^sup>+"
  then show "\<forall>maxArgs frames. getAllChildren_limited maxArgs frames s k = None"
    by (simp add: getAllChildren_limited_cycle)
qed

theorem queries_termination_witness:
  "(\<exists>r. getAllParents mockStore (NumId 4) = Some r) \<and>
   (\<exists>ds maxArgs frames. getAllChildren_limited maxArgs frames mockStore (NumId 1) = Some ds) \<and>
   getAllChildren_limited 2 3 mockStore (NumId 1) =
     Some [treeItem 2 2 (Some 1) ''Child 1'', treeItem 4 4 (Some 2) ''Grandchild 1'',
           treeItem 5 5 (Some 2) ''Grandchild 2'', treeItem 3 3 (Some 1) ''Child 2'',
           treeItem 6 6 (Some 3) ''Grandchild 3''] \<and>
   getAllChildren_limited 2 2 mockStore (NumId 1) = None \<and>
   getAllChildren_limited 1 3 mockStore (NumId 1) = None \<and>
   getAllParents cyclicStore (NumId 1) = None \<and>
   getAllChildren_limited 65535 10000 cyclicStore (NumId 1) = None"
proof -
  note t = queries_termination[of mockStore]
  have sub: "kidLinks mockStore \<subseteq> parentLinks (itemsMap mockStore)"
    by (simp add: kidLinks_mockStore parentLinks_mockStore)
  from t[of "NumId 4"] finite_dom_mockStore acyclic_mockStore
  have 1: "\<exists>r. getAllParents mockStore (NumId 4) = Some r" by blast
  from t[of "NumId 1"] finite_dom_mockStore acyclic_mockStore sub
  obtain ds F where "\<forall>frames \<ge> F. \<forall>maxArgs \<ge> length ds.
          getAllChildren_limited maxArgs frames mockStore (NumId 1) = Some ds"
    by blast
  then have "getAllChildren_limited (length ds) F mockStore (NumId 1) = Some ds" by simp
  then have 2: "\<exists>ds maxArgs frames.
      getAllChildren_limited maxArgs frames mockStore (NumId 1) = Some ds"
    by blast
  have 3: "getAllChildren_limited 2 3 mockStore (NumId 1) =
     Some [treeItem 2 2 (Some 1) ''Child 1'', treeItem 4 4 (Some 2) ''Grandchild 1'',
           treeItem 5 5 (Some 2) ''Grandchild 2'', treeItem 3 3 (Some 1) ''Child 2'',
           treeItem 6 6 (Some 3) ''Grandchild 3'']"
    and 4: "getAllChildren_limited 2 2 mockStore (NumId 1) = None"
    and 5: "getAllChildren_limited 1 3 mockStore (NumId 1) = None"
    by (simp_all add: getAllChildren_limited_def getChildren_mockStore eval_nat_numeral)
  have c: "parentChainCache cyclicStore (NumId 1) = None"
    and loop: "(NumId 1, NumId 1) \<in> parentLinks (itemsMap cyclicStore)"
    and kid: "(NumId 1, NumId 1) \<in> kidLinks cyclicStore"
    by (simp_all add: cyclicStore_def store_eval parentLinks_def kidLinks_def)
  from loop have "(NumId 1, NumId 1) \<in> (parentLinks (itemsMap cyclicStore))\<^sup>+" by auto
  with queries_termination[of cyclicStore "NumId 1"] c
  have 6: "getAllParents cyclicStore (NumId 1) = None" by blast
  from kid have "(NumId 1, NumId 1) \<in> (kidLinks cyclicStore)\<^sup>+" by auto
  with queries_termination[of cyclicStore "NumId 1"]
  have 7: "getAllChildren_limited 65535 10000 cyclicStore (NumId 1) = None" by blast
  from 1 2 3 4 5 6 7 show ?thesis by blast
qed

text \<open>
  Claim C5 as stated fails: \<^verbatim>\<open>update\<close> accepts a record that names itself as parent, and
  on that store neither the ancestor walk nor the descendant collection returns.
\<close>

theorem queries_on_cycle_counterexample:
  "getItem cyclicStore (NumId 1) = Some (treeItem 1 1 (Some 1) ''Loop'') \<and>
   getAllParents cyclicStore (NumId 1) = None \<and>
   getAllChildren cyclicStore (NumId 1) = None"
proof -
  have i: "itemsMap cyclicStore (NumId 1) = Some (treeItem 1 1 (Some 1) ''Loop'')"
    and c: "parentChainCache cyclicStore (NumId 1) = None"
    and g: "getChildren cyclicStore (NumId 1) = [treeItem 1 1 (Some 1) ''Loop'']"
    by (simp_all add: cyclicStore_def store_eval)
  have "getAllParents_loop (itemsMap cyclicStore) (Some (treeItem 1 1 (Some 1) ''Loop'')) [] = None"
    by (rule getAllParents_loop_self_cycle[where k = "NumId 1" and m = "itemsMap cyclicStore", OF i])
       simp
  then have "getAllParents cyclicStore (NumId 1) = None"
    using i c by (simp add: getAllParents_def getItem_def)
  moreover have "getAllChildren_loop cyclicStore [treeItem 1 1 (Some 1) ''Loop''] [] = None"
    by (rule getAllChildren_loop_self_cycle) (simp add: g)
  then have "getAllChildren cyclicStore (NumId 1) = None"
    by (simp add: getAllChildren_def g)
  ultimately show ?thesis using i by (simp add: getItem_def)
qed

text \<open>
  Claim C6. In a store whose cache only refers to allocated arrays, when
  \<^verbatim>\<open>getAllParents(k)\<close> returns the array \<open>a1\<close>, a second call returns an array \<open>a2\<close> with
  the same content; \<open>a1\<close> and \<open>a2\<close> are different arrays and neither is an entry of the
  cache; and whatever the caller writes into \<open>a1\<close>, a later call for any id returns
  what it would have returned without the write.
\<close>

theorem getAllParents_twice_fresh_copy:
  assumes "cacheAllocated s" and "getAllParents s k = Some (a1, s1)"
  shows "(\<exists>a2 s2. getAllParents s1 k = Some (a2, s2) \<and>
            arrays s2 a2 = arrays s1 a1 \<and> a2 \<noteq> a1 \<and>
            (\<forall>k'. parentChainCache s1 k' \<noteq> Some a1) \<and>
            (\<forall>k'. parentChainCache s2 k' \<noteq> Some a2)) \<and>
         (\<forall>ys k'. case getAllParents s1 k' of
                     None \<Rightarrow> getAllParents (writeArray a1 ys s1) k' = None
                   | Some (b, t) \<Rightarrow>
                       (\<exists>t'. getAllParents (writeArray a1 ys s1) k' = Some (b, t') \<and>
                             arrays t' b = arrays t b))"
proof
  note post = getAllParents_post[OF assms]
  from post(4) obtain c where c: "parentChainCache s1 k = Some c"
    and same: "arrays s1 c = arrays s1 a1" by blast
  let ?s2 = "s1\<lparr>arrays := (arrays s1)(fresh s1 := arrays s1 c), fresh := Suc (fresh s1)\<rparr>"
  have second: "getAllParents s1 k = Some (fresh s1, ?s2)"
    by (rule getAllParents_hit[OF c])
  have "arrays ?s2 (fresh s1) = arrays s1 a1" using same by simp
  moreover have "fresh s1 \<noteq> a1" using post(2) by simp
  moreover have "\<forall>k'. parentChainCache ?s2 k' \<noteq> Some (fresh s1)"
    using getAllParents_post(3)[OF post(1) second] .
  ultimately show "\<exists>a2 s2. getAllParents s1 k = Some (a2, s2) \<and>
            arrays s2 a2 = arrays s1 a1 \<and> a2 \<noteq> a1 \<and>
            (\<forall>k'. parentChainCache s1 k' \<noteq> Some a1) \<and>
            (\<forall>k'. parentChainCache s2 k' \<noteq> Some a2)"
    using second post(3) by blast
next
  note post = getAllParents_post[OF assms]
  show "\<forall>ys k'. case getAllParents s1 k' of
                     None \<Rightarrow> getAllParents (writeArray a1 ys s1) k' = None
                   | Some (b, t) \<Rightarrow>
                       (\<exists>t'. getAllParents (writeArray a1 ys s1) k' = Some (b, t') \<and>
                             arrays t' b = arrays t b)"
  proof (intro allI)
    fix ys k'
    show "case getAllParents s1 k' of
                     None \<Rightarrow> getAllParents (writeArray a1 ys s1) k' = None
                   | Some (b, t) \<Rightarrow>
                       (\<exists>t'. getAllParents (writeArray a1 ys s1) k' = Some (b, t') \<and>
                             arrays t' b = arrays t b)"
    proof (cases "getAllParents s1 k'")
      case None
      then show ?thesis
        by (simp add: getAllParents_writeArray[OF post(2,3)])
    next
      case (Some bt)
      obtain b t where bt: "bt = (b, t)" by (cases bt)
      from getAllParents_address[OF Some[unfolded bt]] post(2)
      have "b \<noteq> a1" by simp
      moreover have "getAllParents (writeArray a1 ys s1) k' = Some (b, writeArray a1 ys t)"
        using Some bt by (simp add: getAllParents_writeArray[OF post(2,3)])
      moreover have "arrays (writeArray a1 ys t) b = (if b = a1 then ys else arrays t b)"
        by (simp add: writeArray_def)
      ultimately show ?thesis using Some bt by simp
    qed
  qed
qed

theorem getAllParents_twice_fresh_copy_witness:
  "\<exists>a1 s1 a2 s2 a3 s3.
     getAllParents mockStore (NumId 4) = Some (a1, s1) \<and>
     map itemId (arrays s1 a1) = [NumId 4, NumId 2, NumId 1] \<and>
     getAllParents s1 (NumId 4) = Some (a2, s2) \<and>
     arrays s2 a2 = arrays s1 a1 \<and> a2 \<noteq> a1 \<and>
     getAllParents (writeArray a1 (rev (arrays s1 a1)) s1) (NumId 4) = Some (a3, s3) \<and>
     arrays s3 a3 = arrays s1 a1"
proof -
  have ok: "cacheAllocated mockStore"
    by (simp add: cacheAllocated_def mockStore_def mockItems_def store_eval)
  obtain a1 s1 where first: "getAllParents mockStore (NumId 4) = Some (a1, s1)"
    and chain: "map itemId (arrays s1 a1) = [NumId 4, NumId 2, NumId 1]"
    by (simp add: getAllParents_def newArray_def mockStore_def mockItems_def store_eval
          loop_eval)
  note both = getAllParents_twice_fresh_copy[OF ok first]
  from both obtain a2 s2 where second: "getAllParents s1 (NumId 4) = Some (a2, s2)"
    and same: "arrays s2 a2 = arrays s1 a1" and ne: "a2 \<noteq> a1"
    by blast
  from both have "case getAllParents s1 (NumId 4) of
                     None \<Rightarrow> getAllParents (writeArray a1 (rev (arrays s1 a1)) s1) (NumId 4) = None
                   | Some (b, t) \<Rightarrow>
                       (\<exists>t'. getAllParents (writeArray a1 (rev (arrays s1 a1)) s1) (NumId 4)
                               = Some (b, t') \<and>
                             arrays t' b = arrays t b)"
    by blast
  with second same obtain s3 where third:
    "getAllParents (writeArray a1 (rev (arrays s1 a1)) s1) (NumId 4) = Some (a2, s3)"
    "arrays s3 a2 = arrays s1 a1"
    by auto
  show ?thesis
    by (rule exI[of _ a1], rule exI[of _ s1], rule exI[of _ a2], rule exI[of _ s2],
        rule exI[of _ a2], rule exI[of _ s3])
       (simp add: first chain second same ne third)
qed

text \<open>
  Claim C7. \<^verbatim>\<open>sortTreeItemsDFS\<close> takes the roots (parent null) of the input sequence in
  their order and returns, as stored objects, the pre-order of the forest under them
  along the children lists, whenever that pre-order names no id twice and only stored
  ids. On the two examples the returned ids are \<open>[1,2,4,5,3,6]\<close> and \<open>[1,3,2,4]\<close>.
\<close>

theorem sortTreeItemsDFS_preorder:
  "(\<forall>its s visit.
      preOrderOf s (filter (\<lambda>item. parent item = None) its) visit \<longrightarrow>
      distinct (map itemId visit) \<longrightarrow>
      (\<forall>x \<in> set visit. getItem s (itemId x) \<noteq> None) \<longrightarrow>
      sortTreeItemsDFS its s = Some (map (\<lambda>x. the (getItem s (itemId x))) visit)) \<and>
   map_option (map itemId) (sortTreeItemsDFS mockItems (update newTreeStore mockItems))
     = Some [NumId 1, NumId 2, NumId 4, NumId 5, NumId 3, NumId 6] \<and>
   map_option (map itemId) (sortTreeItemsDFS multiRootItems (update newTreeStore multiRootItems))
     = Some [NumId 1, NumId 3, NumId 2, NumId 4]"
proof (intro conjI allI impI)
  fix its s visit
  assume "preOrderOf s (filter (\<lambda>item. parent item = None) its) visit"
    and "distinct (map itemId visit)"
    and "\<forall>x \<in> set visit. getItem s (itemId x) \<noteq> None"
  from traverse_loop_preOrder[OF this(1,2) _ this(3), of "{}" "[]"]
  show "sortTreeItemsDFS its s = Some (map (\<lambda>x. the (getItem s (itemId x))) visit)"
    by (simp add: sortTreeItemsDFS_def)
next
  show "map_option (map itemId) (sortTreeItemsDFS mockItems (update newTreeStore mockItems))
     = Some [NumId 1, NumId 2, NumId 4, NumId 5, NumId 3, NumId 6]"
    by (simp add: sortTreeItemsDFS_def mockItems_def store_eval traverse_loop_Nil traverse_loop_Cons)
next
  show "map_option (map itemId) (sortTreeItemsDFS multiRootItems (update newTreeStore multiRootItems))
     = Some [NumId 1, NumId 3, NumId 2, NumId 4]"
    by (simp add: sortTreeItemsDFS_def multiRootItems_def store_eval traverse_loop_Nil traverse_loop_Cons)
qed

theorem sortTreeItemsDFS_preorder_witness:
  "sortTreeItemsDFS [treeItem 2 2 (Some 1) ''Child'', treeItem 1 1 None ''Root''] pairStore
     = Some [treeItem 1 1 None ''Root'', treeItem 2 2 (Some 1) ''Child'']"
proof -
  have c: "preOrderOf pairStore [treeItem 2 2 (Some 1) ''Child''] [treeItem 2 2 (Some 1) ''Child'']"
    using preOrderOf.cons[of pairStore "treeItem 2 2 (Some 1) ''Child''" "[]" "[]" "[]"]
    by (simp add: getChildren_pairStore preOrderOf.nil)
  have r: "preOrderOf pairStore
             (filter (\<lambda>item. parent item = None)
                [treeItem 2 2 (Some 1) ''Child'', treeItem 1 1 None ''Root''])
             [treeItem 1 1 None ''Root'', treeItem 2 2 (Some 1) ''Child'']"
    using preOrderOf.cons[of pairStore "treeItem 1 1 None ''Root''"
            "[treeItem 2 2 (Some 1) ''Child'']" "[]" "[]"] c
    by (simp add: getChildren_pairStore preOrderOf.nil)
  have d: "distinct (map itemId [treeItem 1 1 None ''Root'', treeItem 2 2 (Some 1) ''Child''])"
    by simp
  have g: "getItem pairStore (NumId 1) = Some (treeItem 1 1 None ''Root'')"
    "getItem pairStore (NumId 2) = Some (treeItem 2 2 (Some 1) ''Child'')"
    by (simp_all add: pairStore_def store_eval)
  then have p: "\<forall>x \<in> set [treeItem 1 1 None ''Root'', treeItem 2 2 (Some 1) ''Child''].
           getItem pairStore (itemId x) \<noteq> None"
    by simp
  from sortTreeItemsDFS_preorder[THEN conjunct1, rule_format, OF r d p[rule_format]] g
  show ?thesis
    by simp
qed

text \<open>
  Claim C8. An update whose parent field equals the stored record's parent returns
  \<^verbatim>\<open>true\<close>; the children index, the ancestor-chain cache and the chain arrays are as
  before; the id index differs only at the id of the record; the canonical sequence
  differs only at the position of the stored object, which now holds the new one.
\<close>

theorem updateItem_same_parent_frame:
  assumes "getItem s (itemId u) = Some e" and "parent u = parent e"
  shows "\<exists>s'. updateItem s u = Some (True, s') \<and>
           childrenMap s' = childrenMap s \<and>
           parentChainCache s' = parentChainCache s \<and>
           arrays s' = arrays s \<and>
           itemsMap s' = (itemsMap s)(itemId u \<mapsto> u) \<and>
           (\<forall>k. k \<noteq> itemId u \<longrightarrow> getItem s' k = getItem s k) \<and>
           items s' = (case indexOf e (items s) of
                         None \<Rightarrow> items s
                       | Some i \<Rightarrow> (items s)[i := u])"
  by (simp add: updateItem_same_parent[OF assms] getItem_def)

theorem updateItem_same_parent_frame_witness:
  "\<exists>s'. updateItem mockStore (treeItem 7 4 (Some 2) ''Updated Label'') = Some (True, s') \<and>
     childrenMap s' = childrenMap mockStore \<and>
     parentChainCache s' = parentChainCache mockStore \<and>
     getItem s' (NumId 4) = Some (treeItem 7 4 (Some 2) ''Updated Label'') \<and>
     items s' = (items mockStore)[3 := treeItem 7 4 (Some 2) ''Updated Label'']"
proof -
  have a: "getItem mockStore (itemId (treeItem 7 4 (Some 2) ''Updated Label''))
             = Some (treeItem 4 4 (Some 2) ''Grandchild 1'')"
    by (simp add: mockStore_def mockItems_def store_eval)
  have b: "parent (treeItem 7 4 (Some 2) ''Updated Label'')
             = parent (treeItem 4 4 (Some 2) ''Grandchild 1'')"
    by simp
  have c: "indexOf (treeItem 4 4 (Some 2) ''Grandchild 1'') (items mockStore) = Some 3"
    by (simp add: mockStore_def mockItems_def store_eval indexOf_def)
  from updateItem_same_parent_frame[OF a b] c show ?thesis
    by (auto simp: getItem_def)
qed

text \<open>
  Claim C9, as the code has it. After an insertion that returns, the children list under
  the id of the new record is the list the children index already held under that id
  (with the record itself appended when it names itself as parent): \<^verbatim>\<open>addItem\<close> puts
  an empty list there only when the index has no entry. So the list is empty when there
  was no entry and the record is not its own parent.
\<close>

theorem addItem_children_of_new:
  assumes "addItem s r = Some s'"
  shows "getChildren s' (itemId r) =
           (if parent r = Some (itemId r) then getChildren s (itemId r) @ [r]
            else getChildren s (itemId r)) \<and>
         (childrenMap s (itemId r) = None \<and> parent r \<noteq> Some (itemId r)
            \<longrightarrow> getChildren s' (itemId r) = [])"
  using addItem_fields(3)[OF assms] by (simp add: getChildren_def)

theorem addItem_children_of_new_witness:
  "getChildren (the (addItem mockStore (treeItem 7 7 (Some 1) ''New Child''))) (NumId 7) = []"
proof -
  have "\<forall>p. parent (treeItem 7 7 (Some 1) ''New Child'') = Some p \<longrightarrow>
             (itemId (treeItem 7 7 (Some 1) ''New Child''), p) \<notin> (kidLinks mockStore)\<^sup>*"
    by (auto simp: kidLinks_mockStore elim: converse_rtranclE)
  with wf_kidLinks_mockStore
  obtain s' where a: "addItem mockStore (treeItem 7 7 (Some 1) ''New Child'') = Some s'"
    using addItem_terminates by blast
  have n: "childrenMap mockStore (NumId 7) = None"
    by (simp add: mockStore_def mockItems_def store_eval)
  from addItem_children_of_new[OF a] a n show ?thesis
    by (simp add: getChildren_mockStore)
qed

text \<open>
  Claim C9 as stated fails: a store may hold a record whose parent is not stored, and the
  children index then has a list under the missing id. Inserting the missing parent
  succeeds, and its children list is that list, not the empty one.
\<close>

theorem addItem_children_of_new_counterexample:
  "getItem orphanStore (itemId lateRoot) = None \<and>
   addItem orphanStore lateRoot \<noteq> None \<and>
   getChildren (the (addItem orphanStore lateRoot)) (itemId lateRoot) = [orphanItem]"
  by (simp add: addItem_def orphanStore_def lateRoot_def orphanItem_def store_eval)

text \<open>
  Claim C10. After an update that keeps the parent and changes the label of a record
  listed under its parent, \<^verbatim>\<open>getItem\<close> returns the new object while the children list
  of the parent is the list it was: it still holds the old object, with the old label.
\<close>

theorem updateItem_label_keeps_children_entry:
  assumes "getItem s (itemId u) = Some e" and "parent u = parent e"
    and "parent e = Some p" and "label u \<noteq> label e"
    and "e \<in> set (getChildren s p)"
  shows "\<exists>s'. updateItem s u = Some (True, s') \<and>
           getItem s' (itemId u) = Some u \<and>
           getChildren s' p = getChildren s p \<and>
           e \<in> set (getChildren s' p) \<and> label e \<noteq> label u"
  using assms(3-5)
  by (simp add: updateItem_same_parent[OF assms(1,2)] getItem_def getChildren_def)

theorem updateItem_label_keeps_children_entry_witness:
  "\<exists>s'. updateItem mockStore (treeItem 7 4 (Some 2) ''Updated Label'') = Some (True, s') \<and>
     getItem s' (NumId 4) = Some (treeItem 7 4 (Some 2) ''Updated Label'') \<and>
     getChildren s' (NumId 2) =
       [treeItem 4 4 (Some 2) ''Grandchild 1'', treeItem 5 5 (Some 2) ''Grandchild 2'']"
proof -
  have a: "getItem mockStore (itemId (treeItem 7 4 (Some 2) ''Updated Label''))
             = Some (treeItem 4 4 (Some 2) ''Grandchild 1'')"
    by (simp add: mockStore_def mockItems_def store_eval)
  have b: "parent (treeItem 7 4 (Some 2) ''Updated Label'')
             = parent (treeItem 4 4 (Some 2) ''Grandchild 1'')"
    and c: "parent (treeItem 4 4 (Some 2) ''Grandchild 1'') = Some (NumId 2)"
    and d: "label (treeItem 7 4 (Some 2) ''Updated Label'')
             \<noteq> label (treeItem 4 4 (Some 2) ''Grandchild 1'')"
    by simp_all
  have g: "getChildren mockStore (NumId 2) =
       [treeItem 4 4 (Some 2) ''Grandchild 1'', treeItem 5 5 (Some 2) ''Grandchild 2'']"
    by (simp add: getChildren_mockStore)
  then have e: "treeItem 4 4 (Some 2) ''Grandchild 1'' \<in> set (getChildren mockStore (NumId 2))"
    by simp
  from updateItem_label_keeps_children_entry[OF a b c d e] g show ?thesis
    by auto
qed

end
